theory Spec2Isabelle
  imports Complex_Main "HOL-Library.Sublist"
begin

section \<open>Values, documents and the dives table\<close>

text \<open>
  The mutation \<open>upsertDive\<close> of \<open>convex/dives.ts\<close> receives a JavaScript object and
  writes documents of the table \<open>dives\<close>. A value is one of the kinds the argument
  validators of the mutation name (string, number, boolean) or \<open>null\<close>. The mutation
  stores numbers and compares them and computes nothing from them, so a number is taken
  here as the real it stands for, and \<open>NaN\<close> and the infinities are left out of the
  values of the table (the statistics further down compute with numbers and have the
  doubles). An object is a finite map from field names to values; a field that the caller
  omits is simply not in the map (the database client never transmits \<open>undefined\<close>).
\<close>

datatype val = Null | Bool bool | Num real | Str string

type_synonym obj = "string \<rightharpoonup> val"

text \<open>
  The table is the sequence of its documents in insertion order. The identifier
  \<open>_id\<close> of a document is its position: identifiers are opaque to the program, are
  unique, and are never given to a second document. Deleting is not part of the upsert
  workflow, so positions are stable. The database runs a mutation as one transaction;
  calls are therefore taken one after the other. The creation time that the database
  adds to a document and the schema it may enforce on a write play no part in the
  mutation and are left out.
\<close>

type_synonym table = "obj list"

datatype error =
    ArgumentValidationError string
  | UnexpectedFieldError
  | NotUniqueError
  | DocumentNotFoundError
  | Error string
  | TypeError
  | FetchError
  | SyntaxError

subsection \<open>Argument validators\<close>

text \<open>
  \<open>v.string()\<close>, \<open>v.number()\<close>, \<open>v.boolean()\<close> and \<open>v.optional(...)\<close> of the
  database library. A validator that is not optional rejects a missing field.
\<close>

datatype validator = v_string | v_number | v_boolean | v_optional validator

fun accepts :: "validator \<Rightarrow> val option \<Rightarrow> bool" where
  "accepts v_string (Some (Str s)) = True"
| "accepts v_number (Some (Num x)) = True"
| "accepts v_boolean (Some (Bool b)) = True"
| "accepts (v_optional v) None = True"
| "accepts (v_optional v) (Some x) = accepts v (Some x)"
| "accepts _ _ = False"

text \<open>
  Validation of an argument object against the declared fields, run by the library
  before the handler: the first declared field whose validator rejects is reported by
  name; an object with a field that is not declared is rejected as well.
\<close>

definition validate :: "(string \<times> validator) list \<Rightarrow> obj \<Rightarrow> error option" where
  "validate spec args =
     (case filter (\<lambda>(f, v). \<not> accepts v (args f)) spec of
        (f, v) # rest \<Rightarrow> Some (ArgumentValidationError f)
      | [] \<Rightarrow> if dom args \<subseteq> set (map fst spec) then None else Some UnexpectedFieldError)"

text \<open>The \<open>args\<close> block of \<open>upsertDive\<close>, field by field in the order of the source.\<close>

definition upsertDive_args :: "(string \<times> validator) list" where
  "upsertDive_args =
     [(''user_id'', v_string),
      (''dive_number'', v_number),
      (''dive_date'', v_number),
      (''location'', v_string),
      (''latitude'', v_optional v_number),
      (''longitude'', v_optional v_number),
      (''osm_link'', v_optional v_string),
      (''site'', v_optional v_string),
      (''duration'', v_number),
      (''max_depth'', v_number),
      (''temperature'', v_optional v_number),
      (''visibility'', v_optional v_number),
      (''weather'', v_optional v_string),
      (''suit_thickness'', v_optional v_number),
      (''lead_weights'', v_optional v_number),
      (''club_name'', v_string),
      (''instructor_name'', v_string),
      (''photo_storage_id'', v_string),
      (''club_website'', v_optional v_string),
      (''notes'', v_optional v_string),
      (''Buddy_check'', v_boolean),
      (''Briefed'', v_boolean)]"

subsection \<open>Database operations\<close>

text \<open>
  \<open>ctx.db.query("dives").withIndex("by_dive_number", q => q.eq("user_id", u).eq("dive_number", n))\<close>:
  the documents whose two indexed fields equal the given values, each with its \<open>_id\<close>.
\<close>

definition by_dive_number :: "val option \<Rightarrow> val option \<Rightarrow> table \<Rightarrow> (nat \<times> obj) list" where
  "by_dive_number u n db =
     filter (\<lambda>(i, d). d ''user_id'' = u \<and> d ''dive_number'' = n) (enumerate 0 db)"

text \<open>\<open>.unique()\<close>: \<open>null\<close> for no document, the document when there is one, an error for more.\<close>

fun unique :: "'a list \<Rightarrow> error + 'a option" where
  "unique [] = Inr None"
| "unique [x] = Inr (Some x)"
| "unique (x # y # zs) = Inl NotUniqueError"

text \<open>
  \<open>ctx.db.patch(id, fields)\<close> merges the given fields into the document (fields given
  overwrite, all others stay); \<open>ctx.db.insert\<close> appends a document and returns its new
  identifier.
\<close>

definition patch :: "nat \<Rightarrow> obj \<Rightarrow> table \<Rightarrow> error + table" where
  "patch i fields db =
     (if i < length db then Inr (db[i := (db ! i) ++ fields]) else Inl DocumentNotFoundError)"

definition insert_doc :: "obj \<Rightarrow> table \<Rightarrow> nat \<times> table" where
  "insert_doc fields db = (length db, db @ [fields])"

subsection \<open>The mutation\<close>

record upsert_result =
  id' :: nat
  action :: string

text \<open>
  The handler of \<open>upsertDive\<close>; \<open>now\<close> is the value of \<open>Date.now()\<close>. A mutation that
  throws leaves the table as it was.
\<close>

definition handler :: "real \<Rightarrow> obj \<Rightarrow> table \<Rightarrow> (error + upsert_result) \<times> table" where
  "handler now args db =
     (case unique (by_dive_number (args ''user_id'') (args ''dive_number'') db) of
        Inl e \<Rightarrow> (Inl e, db)
      | Inr (Some (i, existing)) \<Rightarrow>
          (case patch i (args(''updated_at'' \<mapsto> Num now)) db of
             Inl e \<Rightarrow> (Inl e, db)
           | Inr db' \<Rightarrow> (Inr \<lparr>id' = i, action = ''updated''\<rparr>, db'))
      | Inr None \<Rightarrow>
          (case insert_doc (args(''logged_at'' \<mapsto> Num now, ''updated_at'' \<mapsto> Num now)) db of
             (i, db') \<Rightarrow> (Inr \<lparr>id' = i, action = ''inserted''\<rparr>, db')))"

definition upsertDive :: "real \<Rightarrow> obj \<Rightarrow> table \<Rightarrow> (error + upsert_result) \<times> table" where
  "upsertDive now args db =
     (case validate upsertDive_args args of
        Some e \<Rightarrow> (Inl e, db)
      | None \<Rightarrow> handler now args db)"

text \<open>A sequence of submissions, each with the clock value of its call.\<close>

fun upserts :: "(real \<times> obj) list \<Rightarrow> table \<Rightarrow> table" where
  "upserts [] db = db"
| "upserts ((now, args) # rest) db = upserts rest (snd (upsertDive now args db))"

text \<open>
  The natural key of a document, when it has both fields, and the invariant of the data
  model: no two documents of the table carry the same (owner, sequence number) pair.
\<close>

definition owner_seq :: "obj \<Rightarrow> (val \<times> val) option" where
  "owner_seq d =
     (case d ''user_id'' of
        None \<Rightarrow> None
      | Some u \<Rightarrow> (case d ''dive_number'' of None \<Rightarrow> None | Some n \<Rightarrow> Some (u, n)))"

definition key_unique :: "table \<Rightarrow> bool" where
  "key_unique db = distinct (List.map_filter owner_seq db)"

subsection \<open>Sample submissions\<close>

text \<open>
  A submission with the required fields only, the same with notes, and a document as
  the table holds it after that second submission was inserted at time 1000.
\<close>

definition required_only :: obj where
  "required_only =
     [''user_id'' \<mapsto> Str ''u1'', ''dive_number'' \<mapsto> Num 5,
      ''dive_date'' \<mapsto> Num 1700000000000, ''location'' \<mapsto> Str ''Blue Corner, Palau'',
      ''duration'' \<mapsto> Num 45, ''max_depth'' \<mapsto> Num 18,
      ''club_name'' \<mapsto> Str ''Fish n Fins'', ''instructor_name'' \<mapsto> Str ''J. Doe'',
      ''photo_storage_id'' \<mapsto> Str ''kg2photo'',
      ''Buddy_check'' \<mapsto> Bool True, ''Briefed'' \<mapsto> Bool True]"

definition with_notes :: obj where
  "with_notes = required_only(''notes'' \<mapsto> Str ''first'')"

definition stored_dive :: obj where
  "stored_dive = with_notes(''logged_at'' \<mapsto> Num 1000, ''updated_at'' \<mapsto> Num 1000)"

text \<open>
  The first submission under the next sequence number, with a negative duration, and
  with the duration left out.
\<close>

definition next_dive :: obj where
  "next_dive = required_only(''dive_number'' \<mapsto> Num 6)"

definition negative_duration :: obj where
  "negative_duration = required_only(''duration'' \<mapsto> Num (- 1))"

definition missing_duration :: obj where
  "missing_duration = required_only(''duration'' := None)"

section \<open>Strings\<close>

text \<open>
  A string is the sequence of its code units, here restricted to the units below 256
  (one \<open>char\<close> each), so \<open>length\<close> is the \<open>.length\<close> of the source. Among these units
  the white space that \<open>String.prototype.trim\<close> removes is tab, line feed, vertical
  tab, form feed, carriage return, space and the no-break space.
\<close>

definition is_ws :: "char \<Rightarrow> bool" where
  "is_ws c = (c \<in> set [CHR 0x09, CHR 0x0A, CHR 0x0B, CHR 0x0C, CHR 0x0D, CHR 0x20, CHR 0xA0])"

definition trim :: "string \<Rightarrow> string" where
  "trim s = rev (dropWhile is_ws (rev (dropWhile is_ws s)))"

section \<open>Geocoding (\<open>lib/geocoding.ts\<close>)\<close>

text \<open>
  The provider is reached through \<open>fetch\<close>. A request is the endpoint with its
  parameters (the query text or the coordinates, the API key, the limit); the answer is
  a rejected promise, or a response with its \<open>ok\<close> flag, its status text and its body.
  The body either fails to parse as JSON or is an object whose \<open>features\<close> is missing
  or is an array; a feature has a \<open>properties\<close> object or lacks it. Inside
  \<open>properties\<close> the coordinates and the formatted address are present, as the type
  \<open>GeocodingResult\<close> of the source expects; the other fields may be missing.
\<close>

datatype geo_request =
    Autocomplete string string nat
  | Reverse real real string

record properties =
  lat :: real
  lon :: real
  name :: "string option"
  formatted :: string
  city :: "string option"
  country :: "string option"
  state :: "string option"

type_synonym feature = "properties option"

datatype geo_json = JsonRejected | JsonData "feature list option"

datatype geo_response = FetchRejected | Response bool string geo_json

record address =
  city :: "string option"
  country :: "string option"
  state :: "string option"

record GeocodingResult =
  lat :: real
  lon :: real
  name :: string
  display_name :: string
  address :: address

text \<open>
  The object literal both functions build from a feature. Reading a field of a missing
  \<open>properties\<close> throws a \<open>TypeError\<close>; \<open>name || formatted\<close> takes the name unless
  it is missing or empty.
\<close>

definition to_result :: "feature \<Rightarrow> error + GeocodingResult" where
  "to_result feature =
     (case feature of
        None \<Rightarrow> Inl TypeError
      | Some p \<Rightarrow>
          Inr \<lparr>lat = properties.lat p,
               lon = properties.lon p,
               name = (case properties.name p of
                         None \<Rightarrow> formatted p
                       | Some n \<Rightarrow> if n = [] then formatted p else n),
               display_name = formatted p,
               address = \<lparr>city = properties.city p,
                           country = properties.country p,
                           state = properties.state p\<rparr>\<rparr>)"

text \<open>\<open>Array.prototype.map\<close> with a callback that may throw: the first throw ends the call.\<close>

fun map_results :: "feature list \<Rightarrow> error + GeocodingResult list" where
  "map_results [] = Inr []"
| "map_results (f # fs) =
     (case to_result f of
        Inl e \<Rightarrow> Inl e
      | Inr r \<Rightarrow> (case map_results fs of Inl e \<Rightarrow> Inl e | Inr rs \<Rightarrow> Inr (r # rs)))"

text \<open>
  The environment variable \<open>GEOAPIFY_API_KEY\<close> is a string or is not set;
  \<open>!GEOAPIFY_API_KEY\<close> holds when it is not set or empty.
\<close>

definition searchLocation ::
  "string option \<Rightarrow> (geo_request \<Rightarrow> geo_response) \<Rightarrow> string \<Rightarrow> error + GeocodingResult list" where
  "searchLocation GEOAPIFY_API_KEY fetch query =
     (case GEOAPIFY_API_KEY of
        None \<Rightarrow> Inl (Error ''Geoapify API key not configured'')
      | Some key \<Rightarrow>
          if key = [] then Inl (Error ''Geoapify API key not configured'')
          else if query = [] \<or> length (trim query) < 2 then Inr []
          else (case fetch (Autocomplete query key 5) of
                  FetchRejected \<Rightarrow> Inl FetchError
                | Response ok statusText body \<Rightarrow>
                    if \<not> ok then Inl (Error (''Geocoding API error: '' @ statusText))
                    else (case body of
                            JsonRejected \<Rightarrow> Inl SyntaxError
                          | JsonData features \<Rightarrow>
                              map_results (case features of None \<Rightarrow> [] | Some fs \<Rightarrow> fs))))"

definition reverseGeocode ::
  "string option \<Rightarrow> (geo_request \<Rightarrow> geo_response) \<Rightarrow> real \<Rightarrow> real \<Rightarrow> error + GeocodingResult option" where
  "reverseGeocode GEOAPIFY_API_KEY fetch lat' lon' =
     (case GEOAPIFY_API_KEY of
        None \<Rightarrow> Inl (Error ''Geoapify API key not configured'')
      | Some key \<Rightarrow>
          if key = [] then Inl (Error ''Geoapify API key not configured'')
          else (case fetch (Reverse lat' lon' key) of
                  FetchRejected \<Rightarrow> Inl FetchError
                | Response ok statusText body \<Rightarrow>
                    if \<not> ok then Inl (Error (''Reverse geocoding API error: '' @ statusText))
                    else (case body of
                            JsonRejected \<Rightarrow> Inl SyntaxError
                          | JsonData features \<Rightarrow>
                              (case features of
                                 None \<Rightarrow> Inr None
                               | Some [] \<Rightarrow> Inr None
                               | Some (feature # others) \<Rightarrow>
                                   (case to_result feature of
                                      Inl e \<Rightarrow> Inl e
                                    | Inr r \<Rightarrow> Inr (Some r))))))"

text \<open>
  A transport or provider failure of a lookup: the request is rejected, the status is
  not a success, the body is not JSON, or the first feature has no properties.
\<close>

definition transport_or_provider_failure :: "geo_response \<Rightarrow> bool" where
  "transport_or_provider_failure r =
     (case r of
        FetchRejected \<Rightarrow> True
      | Response ok statusText body \<Rightarrow>
          \<not> ok \<or> (case body of
                     JsonRejected \<Rightarrow> True
                   | JsonData features \<Rightarrow>
                       (case features of
                          None \<Rightarrow> False
                        | Some [] \<Rightarrow> False
                        | Some (feature # others) \<Rightarrow> feature = None)))"

text \<open>A provider that answers every request successfully with no match.\<close>

definition no_coverage :: "geo_request \<Rightarrow> geo_response" where
  "no_coverage request = Response True ''OK'' (JsonData (Some []))"

text \<open>A provider that answers every request with a failure status.\<close>

definition provider_down :: "geo_request \<Rightarrow> geo_response" where
  "provider_down request = Response False ''Service Unavailable'' JsonRejected"

section \<open>Club website search (\<open>lib/search.ts\<close> and the route \<open>search-club\<close>)\<close>

subsection \<open>The three regular expressions of the route\<close>

text \<open>
  The patterns of the route are sequences of literals, \<open>[^c]*\<close> and one capturing
  \<open>([^c]+)\<close>. \<open>match_here\<close> is the backtracking matcher at a fixed start: a greedy item
  tries its longest run first and gives back one character at a time; \<open>match\<close> tries
  the start positions from the left, as \<open>String.prototype.match\<close> does, and returns
  the captured group of the first match.
\<close>

datatype item = Lit string | StarNot char | PlusNot char

fun first_some :: "'a option list \<Rightarrow> 'a option" where
  "first_some [] = None"
| "first_some (None # xs) = first_some xs"
| "first_some (Some x # xs) = Some x"

fun match_here :: "item list \<Rightarrow> string \<Rightarrow> string \<Rightarrow> string option" where
  "match_here [] s cap = Some cap"
| "match_here (Lit l # rest) s cap =
     (if prefix l s then match_here rest (drop (length l) s) cap else None)"
| "match_here (StarNot c # rest) s cap =
     first_some (map (\<lambda>k. match_here rest (drop k s) cap)
       (rev [0 ..< Suc (length (takeWhile (\<lambda>x. x \<noteq> c) s))]))"
| "match_here (PlusNot c # rest) s cap =
     first_some (map (\<lambda>k. match_here rest (drop k s) (take k s))
       (rev [1 ..< Suc (length (takeWhile (\<lambda>x. x \<noteq> c) s))]))"

definition match :: "item list \<Rightarrow> string \<Rightarrow> string option" where
  "match items s = first_some (map (\<lambda>i. match_here items (drop i s) []) [0 ..< Suc (length s)])"

text \<open>
  What it means for a text to have the form of a pattern, with the given captured group:
  the reading of the patterns against which the matcher is checked below. A pattern
  matches a string at a position when a prefix of the rest of the string has its form.
\<close>

fun shape :: "item list \<Rightarrow> string \<Rightarrow> string \<Rightarrow> string \<Rightarrow> bool" where
  "shape [] w cap0 cap = (w = [] \<and> cap = cap0)"
| "shape (Lit l # rest) w cap0 cap = (\<exists>w'. w = l @ w' \<and> shape rest w' cap0 cap)"
| "shape (StarNot c # rest) w cap0 cap =
     (\<exists>a w'. w = a @ w' \<and> c \<notin> set a \<and> shape rest w' cap0 cap)"
| "shape (PlusNot c # rest) w cap0 cap =
     (\<exists>a w'. w = a @ w' \<and> a \<noteq> [] \<and> c \<notin> set a \<and> shape rest w' a cap)"

definition matches_at :: "item list \<Rightarrow> string \<Rightarrow> nat \<Rightarrow> string \<Rightarrow> bool" where
  "matches_at items s i cap = (\<exists>w r. drop i s = w @ r \<and> shape items w [] cap)"

text \<open>\<open>/<a[^>]*class="result__a"[^>]*href="([^"]+)"/\<close>\<close>

definition result_a :: "item list" where
  "result_a =
     [Lit ''<a'', StarNot CHR ''>'', Lit ''class=\"result__a\"'', StarNot CHR ''>'',
      Lit ''href=\"'', PlusNot CHR 0x22, Lit ''\"'']"

text \<open>\<open>/uddg=([^&]+)/\<close>\<close>

definition uddg :: "item list" where
  "uddg = [Lit ''uddg='', PlusNot CHR ''&'']"

text \<open>\<open>/class="result__url"[^>]*>([^<]+)</\<close>\<close>

definition result_url :: "item list" where
  "result_url =
     [Lit ''class=\"result__url\"'', StarNot CHR ''>'', Lit ''>'', PlusNot CHR ''<'', Lit ''<'']"

text \<open>\<open>url.replace(/^\/\//, 'https://')\<close>\<close>

definition replace_leading_slashes :: "string \<Rightarrow> string" where
  "replace_leading_slashes url = (if prefix ''//'' url then ''https://'' @ drop 2 url else url)"

subsection \<open>The route\<close>

text \<open>
  The answer of the search provider to the page request (a rejected \<open>fetch\<close> or
  \<open>text()\<close>, or the \<open>ok\<close> flag, the status and the page), and the answers of the route.
  \<open>decodeURIComponent\<close> is the platform's function, a parameter here: \<open>None\<close> is
  its \<open>URIError\<close>.
\<close>

datatype page_response = PageRejected | Page bool nat string

datatype route_response =
    Found string string
  | BadRequest
  | NoResults string
  | Failed

definition GET ::
  "(string \<Rightarrow> string option) \<Rightarrow> (string \<Rightarrow> page_response) \<Rightarrow> string option \<Rightarrow> route_response" where
  "GET decodeURIComponent fetch q =
     (case q of
        None \<Rightarrow> BadRequest
      | Some query \<Rightarrow>
          if query = [] then BadRequest
          else (case fetch query of
                  PageRejected \<Rightarrow> Failed
                | Page ok status html \<Rightarrow>
                    if \<not> ok then Failed
                    else (case match result_a html of
                            Some href \<Rightarrow>
                              (case match uddg href of
                                 Some target \<Rightarrow>
                                   (case decodeURIComponent target of
                                      None \<Rightarrow> Failed
                                    | Some url \<Rightarrow> Found (replace_leading_slashes url) query)
                               | None \<Rightarrow> Found (replace_leading_slashes href) query)
                          | None \<Rightarrow>
                              (case match result_url html of
                                 Some shown \<Rightarrow>
                                   Found (if prefix ''http'' (trim shown) then trim shown
                                          else ''https://'' @ trim shown) query
                               | None \<Rightarrow> NoResults query))))"

subsection \<open>The client function\<close>

text \<open>
  \<open>searchClubWebsite\<close> calls the route through \<open>fetch\<close>: the promise is rejected, or
  there is a response with its \<open>ok\<close> flag, its status and its body, which fails to
  parse or is an object with the fields \<open>success\<close> and \<open>url\<close> (each possibly missing;
  a missing \<open>success\<close> counts as false).
\<close>

datatype api_json = ApiJsonRejected | ApiData bool "string option"

datatype api_response = ApiRejected | ApiResponse bool nat api_json

record SearchResult =
  url :: string
  title :: string

definition searchClubWebsite ::
  "(string \<Rightarrow> api_response) \<Rightarrow> string \<Rightarrow> error + SearchResult option" where
  "searchClubWebsite fetch clubName =
     (if clubName = [] \<or> length (trim clubName) = 0 then Inr None
      else (case fetch clubName of
              ApiRejected \<Rightarrow> Inr None
            | ApiResponse ok status body \<Rightarrow>
                if \<not> ok then Inr None
                else (case body of
                        ApiJsonRejected \<Rightarrow> Inr None
                      | ApiData success data_url \<Rightarrow>
                          (case data_url of
                             None \<Rightarrow> Inr None
                           | Some u \<Rightarrow>
                               if success \<and> u \<noteq> []
                               then Inr (Some \<lparr>url = u, title = clubName\<rparr>)
                               else Inr None))))"

text \<open>The route as the client's \<open>fetch\<close> sees it (\<open>NextResponse.json\<close> with its status).\<close>

definition as_api_response :: "route_response \<Rightarrow> api_response" where
  "as_api_response r =
     (case r of
        Found u query \<Rightarrow> ApiResponse True 200 (ApiData True (Some u))
      | BadRequest \<Rightarrow> ApiResponse False 400 (ApiData False None)
      | NoResults query \<Rightarrow> ApiResponse False 404 (ApiData False None)
      | Failed \<Rightarrow> ApiResponse False 500 (ApiData False None))"

definition formatUrl :: "string \<Rightarrow> string" where
  "formatUrl u =
     (if u = [] then []
      else if prefix ''http://'' (trim u) \<or> prefix ''https://'' (trim u) then trim u
      else ''https://'' @ trim u)"

text \<open>A URL with the scheme \<open>http\<close> or \<open>https\<close> written out.\<close>

definition has_scheme :: "string \<Rightarrow> bool" where
  "has_scheme u = (prefix ''http://'' u \<or> prefix ''https://'' u)"

text \<open>
  The client function on top of the route: the query parameter \<open>q\<close> carries the club
  name (encoded by the client and decoded by the framework).
\<close>

definition resolve ::
  "(string \<Rightarrow> string option) \<Rightarrow> (string \<Rightarrow> page_response) \<Rightarrow> string \<Rightarrow> error + SearchResult option" where
  "resolve decodeURIComponent page clubName =
     searchClubWebsite (\<lambda>q. as_api_response (GET decodeURIComponent page (Some q))) clubName"

subsection \<open>Sample pages\<close>

text \<open>
  A result page whose first link is a redirect wrapper and two pages that only have a
  displayed address; a route that is never reached and one that finds nothing; and
  \<open>decodeURIComponent\<close> at the one string the first page needs.
\<close>

definition html_wrapped :: string where
  "html_wrapped =
     ''<a rel=\"nofollow\" class=\"result__a\" href=\"//duckduckgo.com/l/?uddg=https%3A%2F%2Fblue.example&rut=9\">Blue</a>''"

definition html_display :: string where
  "html_display = ''<a class=\"result__url\" target=\"_blank\"> www.reef.example/dive </a>''"

definition html_display_http :: string where
  "html_display_http = ''<a class=\"result__url\" target=\"_blank\"> httpbin.org </a>''"

definition page_of :: "string \<Rightarrow> string \<Rightarrow> page_response" where
  "page_of html q = Page True 200 html"

definition decode_sample :: "string \<Rightarrow> string option" where
  "decode_sample s =
     (if s = ''https%3A%2F%2Fblue.example'' then Some ''https://blue.example'' else None)"

definition no_decoding :: "string \<Rightarrow> string option" where
  "no_decoding s = None"

definition unreachable :: "string \<Rightarrow> api_response" where
  "unreachable q = ApiRejected"

definition not_found :: "string \<Rightarrow> api_response" where
  "not_found q = as_api_response (NoResults q)"

section \<open>Dive statistics (\<open>getDiveStats\<close> of \<open>convex/dives.ts\<close>)\<close>

text \<open>
  The statistics read the fields \<open>userId\<close>, \<open>duration\<close> and \<open>maxDepth\<close> of the
  documents, which the schema of the table requires; the other fields of a document are
  in the extension of the record. The query computes with the two number fields, so a
  number is here a JavaScript Number, an IEEE 754 double: \<open>NaN\<close>, one of the two
  infinities, the negative zero, or a finite value \<open>Finite x\<close>, with \<open>x\<close> the real it
  stands for (\<open>Finite 0\<close> is the positive zero). The limits of the platform on the
  number of arguments of a call and on the size of a query result are left out.
\<close>

datatype number = NaN | NegInfinity | PosInfinity | NegZero | Finite real

subsection \<open>Rounding to a double\<close>

text \<open>
  The binary exponent of a positive real: \<open>2 powi expo x \<le> x < 2 powi (expo x + 1)\<close>.
\<close>

function expo :: "real \<Rightarrow> int" where
  "expo x =
     (if x \<le> 0 then 0
      else if 2 \<le> x then expo (x / 2) + 1
      else if x < 1 then expo (2 * x) - 1
      else 0)"
  by pat_completeness auto
termination
proof (relation "measure (\<lambda>x. nat \<lfloor>\<bar>log 2 x\<bar>\<rfloor> + (if x < 1 then 1 else 0))")
  show "wf (measure (\<lambda>x. nat \<lfloor>\<bar>log 2 x\<bar>\<rfloor> + (if x < 1 then 1 else 0)))" by simp
next
  fix x :: real
  assume a: "\<not> x \<le> 0" "2 \<le> x"
  then have l: "1 \<le> log 2 x" by (simp add: le_log_iff)
  have "log 2 (x / 2) = log 2 x - 1" using a by (simp add: log_divide_pos)
  with l a show "(x / 2, x) \<in> measure (\<lambda>x. nat \<lfloor>\<bar>log 2 x\<bar>\<rfloor> + (if x < 1 then 1 else 0))"
    by simp
next
  fix x :: real
  assume a: "\<not> x \<le> 0" "\<not> 2 \<le> x" "x < 1"
  then have l: "log 2 x < 0" by simp
  have e: "log 2 (2 * x) = log 2 x + 1" using a by (simp add: log_mult_pos)
  show "(2 * x, x) \<in> measure (\<lambda>x. nat \<lfloor>\<bar>log 2 x\<bar>\<rfloor> + (if x < 1 then 1 else 0))"
  proof (cases "2 * x < 1")
    case True
    then have "log 2 (2 * x) < 0" using a by simp
    with e l True a show ?thesis by simp
  next
    case False
    then have "0 \<le> log 2 (2 * x)" using a by simp
    with e l have "0 \<le> \<bar>log 2 (2 * x)\<bar> \<and> \<bar>log 2 (2 * x)\<bar> < 1" by simp
    then have "\<lfloor>\<bar>log 2 (2 * x)\<bar>\<rfloor> = 0" by (simp add: floor_eq_iff)
    with False a show ?thesis by simp
  qed
qed

declare expo.simps [simp del]

text \<open>The nearest integer, the even one of the two when they are equally near.\<close>

definition round_half_even :: "real \<Rightarrow> int" where
  "round_half_even q =
     (let f = \<lfloor>q\<rfloor> in
      if q - of_int f < 1 / 2 then f
      else if 1 / 2 < q - of_int f then f + 1
      else if even f then f else f + 1)"

text \<open>
  An arithmetic operation returns its exact result rounded to the nearest double, the
  one with the even significand when two are equally near. A double has 53 significant
  bits and no binary digit below \<open>2 powi (- 1074)\<close>, so the doubles next to \<open>x\<close> are
  the multiples of \<open>2 powi max (expo \<bar>x\<bar> - 52) (- 1074)\<close>; a rounded magnitude of
  \<open>2 ^ 1024\<close> or more is an infinity.
\<close>

definition round_double :: "real \<Rightarrow> number" where
  "round_double x =
     (if x = 0 then Finite 0
      else let e = max (expo \<bar>x\<bar> - 52) (- 1074);
               r = of_int (round_half_even (x / 2 powi e)) * 2 powi e
           in if 2 ^ 1024 \<le> \<bar>r\<bar> then (if 0 < x then PosInfinity else NegInfinity)
              else if r = 0 then (if x < 0 then NegZero else Finite 0)
              else Finite r)"

subsection \<open>The operations of the query on numbers\<close>

text \<open>
  The operator \<open>+\<close> on two numbers: \<open>NaN\<close> when an operand is \<open>NaN\<close> or the
  operands are the two infinities, an infinity when one operand is one, the negative
  zero for two negative zeros only, and otherwise the exact sum rounded.
\<close>

fun Number_add :: "number \<Rightarrow> number \<Rightarrow> number" where
  "Number_add NaN y = NaN"
| "Number_add x NaN = NaN"
| "Number_add PosInfinity NegInfinity = NaN"
| "Number_add NegInfinity PosInfinity = NaN"
| "Number_add PosInfinity y = PosInfinity"
| "Number_add x PosInfinity = PosInfinity"
| "Number_add NegInfinity y = NegInfinity"
| "Number_add x NegInfinity = NegInfinity"
| "Number_add NegZero y = y"
| "Number_add x NegZero = x"
| "Number_add (Finite x) (Finite y) = round_double (x + y)"

text \<open>
  The comparison \<open><\<close> on two numbers: false when either is \<open>NaN\<close>, and the two zeros
  are equal.
\<close>

fun Number_lessThan :: "number \<Rightarrow> number \<Rightarrow> bool" where
  "Number_lessThan NaN y = False"
| "Number_lessThan x NaN = False"
| "Number_lessThan PosInfinity y = False"
| "Number_lessThan x PosInfinity = True"
| "Number_lessThan x NegInfinity = False"
| "Number_lessThan NegInfinity y = True"
| "Number_lessThan NegZero NegZero = False"
| "Number_lessThan NegZero (Finite y) = (0 < y)"
| "Number_lessThan (Finite x) NegZero = (x < 0)"
| "Number_lessThan (Finite x) (Finite y) = (x < y)"

text \<open>
  \<open>Math.max(...xs)\<close>: the loop of the language specification, which starts from
  \<open>-Infinity\<close>, returns \<open>NaN\<close> at the first argument that is \<open>NaN\<close>, and
  prefers the positive zero to the negative one.
\<close>

fun max_from :: "number \<Rightarrow> number list \<Rightarrow> number" where
  "max_from highest [] = highest"
| "max_from highest (x # xs) =
     (if x = NaN then NaN
      else max_from (if x = Finite 0 \<and> highest = NegZero then Finite 0
                     else if Number_lessThan highest x then x
                     else highest) xs)"

definition Math_max :: "number list \<Rightarrow> number" where
  "Math_max xs = max_from NegInfinity xs"

subsection \<open>The query\<close>

record dive =
  userId :: string
  duration :: number
  maxDepth :: number

record dive_stats =
  totalDives :: nat
  maxDepth :: number
  totalTime :: number

text \<open>\<open>.withIndex('by_userId', q => q.eq('userId', userId)).collect()\<close>\<close>

definition by_userId :: "string \<Rightarrow> 'a dive_scheme list \<Rightarrow> 'a dive_scheme list" where
  "by_userId u db = filter (\<lambda>d. userId d = u) db"

definition getDiveStats :: "string \<Rightarrow> 'a dive_scheme list \<Rightarrow> dive_stats" where
  "getDiveStats u db =
     (let dives = by_userId u db in
      if length dives = 0
      then \<lparr>totalDives = 0, maxDepth = Finite 0, totalTime = Finite 0\<rparr>
      else \<lparr>totalDives = length dives,
            maxDepth = Math_max (map dive.maxDepth dives),
            totalTime = foldl (\<lambda>sum d. Number_add sum (duration d)) (Finite 0) dives\<rparr>)"

text \<open>
  For the statement of the totals: the numbers that are finite, the real a finite number
  stands for, and the reals that are doubles, which are those that rounding leaves as
  they are.
\<close>

fun finite_number :: "number \<Rightarrow> bool" where
  "finite_number (Finite x) = True"
| "finite_number NegZero = True"
| "finite_number x = False"

fun Number_value :: "number \<Rightarrow> real" where
  "Number_value (Finite x) = x"
| "Number_value x = 0"

definition representable :: "real \<Rightarrow> bool" where
  "representable x = (round_double x = Finite x)"

subsection \<open>Sample tables\<close>

text \<open>
  Two owners with whole-minute durations; an owner with a duration of \<open>2 ^ 53\<close>
  minutes followed by one of a minute; and an owner with a document whose numbers are
  \<open>NaN\<close>.
\<close>

definition sample_dives :: "dive list" where
  "sample_dives =
     [\<lparr>userId = ''u1'', duration = Finite 45, maxDepth = Finite 18\<rparr>,
      \<lparr>userId = ''u2'', duration = Finite 30, maxDepth = Finite 40\<rparr>,
      \<lparr>userId = ''u1'', duration = Finite 50, maxDepth = Finite 25.5\<rparr>]"

definition long_dives :: "dive list" where
  "long_dives =
     [\<lparr>userId = ''u1'', duration = Finite 9007199254740992, maxDepth = Finite 18\<rparr>,
      \<lparr>userId = ''u1'', duration = Finite 1, maxDepth = Finite 25.5\<rparr>]"

definition nan_dives :: "dive list" where
  "nan_dives =
     [\<lparr>userId = ''u1'', duration = Finite 45, maxDepth = Finite 18\<rparr>,
      \<lparr>userId = ''u1'', duration = NaN, maxDepth = NaN\<rparr>]"

section \<open>The table: lookup by key and the invariant\<close>

text \<open>
  The lookup by the index finds exactly the positions whose two key fields equal the
  given values, and the invariant \<open>key_unique\<close> says that for every owner and sequence
  number it finds at most one (\<open>key_unique_iff\<close>).
\<close>

lemma in_by_dive_number:
  "(i, d) \<in> set (by_dive_number u n db) \<longleftrightarrow>
     i < length db \<and> db ! i = d \<and> d ''user_id'' = u \<and> d ''dive_number'' = n"
  by (auto simp: by_dive_number_def in_set_enumerate_eq)

lemma by_dive_number_empty_iff:
  "by_dive_number u n db = [] \<longleftrightarrow> (\<forall>i < length db. \<not> ((db ! i) ''user_id'' = u \<and> (db ! i) ''dive_number'' = n))"
proof -
  have "by_dive_number u n db = [] \<longleftrightarrow> set (by_dive_number u n db) = {}" by simp
  also have "\<dots> \<longleftrightarrow> (\<forall>i d. (i, d) \<notin> set (by_dive_number u n db))"
    by (simp only: set_eq_iff empty_iff split_paired_All simp_thms)
  also have "\<dots> \<longleftrightarrow> (\<forall>i < length db. \<not> ((db ! i) ''user_id'' = u \<and> (db ! i) ''dive_number'' = n))"
    by (auto simp: in_by_dive_number)
  finally show ?thesis .
qed

lemma by_dive_number_snoc:
  "by_dive_number u n (db @ [d]) =
     by_dive_number u n db @ (if d ''user_id'' = u \<and> d ''dive_number'' = n then [(length db, d)] else [])"
  by (simp add: by_dive_number_def enumerate_append_eq)

lemma set_map_filter: "set (List.map_filter f xs) = {y. \<exists>x \<in> set xs. f x = Some y}"
  by (induction xs) (auto simp: List.map_filter_simps split: option.splits)

lemma map_filter_append:
  "List.map_filter f (xs @ ys) = List.map_filter f xs @ List.map_filter f ys"
  by (induction xs) (auto simp: List.map_filter_simps split: option.splits)

lemma map_filter_update:
  "i < length xs \<Longrightarrow> f y = f (xs ! i) \<Longrightarrow> List.map_filter f (xs[i := y]) = List.map_filter f xs"
proof (induction xs arbitrary: i)
  case Nil
  then show ?case by simp
next
  case (Cons x xs)
  show ?case
  proof (cases i)
    case 0
    with Cons.prems show ?thesis by (simp add: List.map_filter_simps)
  next
    case (Suc i')
    with Cons.prems have "i' < length xs" "f y = f (xs ! i')" by simp_all
    then have "List.map_filter f (xs[i' := y]) = List.map_filter f xs" by (rule Cons.IH)
    with Suc show ?thesis by (simp add: List.map_filter_simps split: option.splits)
  qed
qed

lemma distinct_map_filter_nth:
  "distinct (List.map_filter f xs) \<Longrightarrow> i < length xs \<Longrightarrow> j < length xs \<Longrightarrow>
     f (xs ! i) = Some k \<Longrightarrow> f (xs ! j) = Some k \<Longrightarrow> i = j"
proof (induction xs arbitrary: i j)
  case Nil
  then show ?case by simp
next
  case (Cons x xs)
  show ?case
  proof (cases i)
    case 0
    note i0 = this
    show ?thesis
    proof (cases j)
      case 0
      with i0 show ?thesis by simp
    next
      case (Suc j')
      with Cons.prems i0 have "f x = Some k" "f (xs ! j') = Some k" "j' < length xs" by auto
      moreover from this Cons.prems(1) have "k \<notin> set (List.map_filter f xs)"
        by (simp add: List.map_filter_simps)
      ultimately show ?thesis by (auto simp: set_map_filter)
    qed
  next
    case (Suc i')
    note iS = this
    show ?thesis
    proof (cases j)
      case 0
      with Cons.prems iS have "f x = Some k" "f (xs ! i') = Some k" "i' < length xs" by auto
      moreover from this Cons.prems(1) have "k \<notin> set (List.map_filter f xs)"
        by (simp add: List.map_filter_simps)
      ultimately show ?thesis by (auto simp: set_map_filter)
    next
      case (Suc j')
      from Cons.prems(1) have "distinct (List.map_filter f xs)"
        by (simp add: List.map_filter_simps split: option.splits)
      with Cons.IH[of i' j'] Cons.prems iS Suc show ?thesis by simp
    qed
  qed
qed

lemma distinct_map_filter_iff:
  "distinct (List.map_filter f xs) \<longleftrightarrow> (\<forall>k. length (filter (\<lambda>x. f x = Some k) xs) \<le> 1)"
proof (induction xs)
  case Nil
  show ?case by (simp add: List.map_filter_simps)
next
  case (Cons x xs)
  show ?case
  proof (cases "f x")
    case None
    with Cons show ?thesis by (simp add: List.map_filter_simps)
  next
    case (Some y)
    have "(\<forall>k. length (filter (\<lambda>x. f x = Some k) (x # xs)) \<le> 1) \<longleftrightarrow>
          filter (\<lambda>x. f x = Some y) xs = [] \<and> (\<forall>k. length (filter (\<lambda>x. f x = Some k) xs) \<le> 1)"
      (is "?L \<longleftrightarrow> ?E \<and> ?R")
    proof
      assume L: ?L
      from L[rule_format, of y] Some have ?E by simp
      moreover have ?R
      proof
        fix k from L[rule_format, of k] show "length (filter (\<lambda>x. f x = Some k) xs) \<le> 1"
          by (simp split: if_splits)
      qed
      ultimately show "?E \<and> ?R" ..
    next
      assume ER: "?E \<and> ?R"
      show ?L
      proof
        fix k from ER Some show "length (filter (\<lambda>x. f x = Some k) (x # xs)) \<le> 1"
          by (cases "k = y") auto
      qed
    qed
    moreover have "y \<notin> set (List.map_filter f xs) \<longleftrightarrow> filter (\<lambda>x. f x = Some y) xs = []"
      by (auto simp: set_map_filter filter_empty_conv)
    ultimately show ?thesis using Some Cons by (simp add: List.map_filter_simps)
  qed
qed

lemma filter_singleton:
  assumes "distinct xs" "x \<in> set xs" "P x" "\<forall>y \<in> set xs. P y \<longrightarrow> y = x"
  shows "filter P xs = [x]"
  using assms
proof (induction xs)
  case Nil
  then show ?case by simp
next
  case (Cons a xs)
  from Cons.prems(1) have d: "distinct xs" and a: "a \<notin> set xs" by simp_all
  from Cons.prems(4) have u: "\<forall>y \<in> set xs. P y \<longrightarrow> y = x" by simp
  show ?case
  proof (cases "a = x")
    case True
    from u a True have "\<forall>y \<in> set xs. \<not> P y" by blast
    then have "filter P xs = []" by (simp add: filter_empty_conv)
    with True Cons.prems(3) show ?thesis by simp
  next
    case False
    from Cons.prems(4) False have np: "\<not> P a" by fastforce
    from Cons.prems(2) False have xin: "x \<in> set xs" by simp
    from Cons.IH[OF d xin Cons.prems(3) u] np show ?thesis by simp
  qed
qed

lemma owner_seq_match:
  "owner_seq d = Some (u, n) \<longleftrightarrow> d ''user_id'' = Some u \<and> d ''dive_number'' = Some n"
  by (auto simp: owner_seq_def split: option.splits)

lemma by_dive_number_the_one:
  assumes "key_unique db" "i < length db"
    and "(db ! i) ''user_id'' = Some u" "(db ! i) ''dive_number'' = Some n"
  shows "by_dive_number (Some u) (Some n) db = [(i, db ! i)]"
proof -
  let ?P = "\<lambda>(i, d). d ''user_id'' = Some u \<and> d ''dive_number'' = Some n"
  have 1: "distinct (enumerate 0 db)" by (simp add: distinct_enumerate)
  have 2: "(i, db ! i) \<in> set (enumerate 0 db)" using assms(2) by (simp add: in_set_enumerate_eq)
  have 3: "?P (i, db ! i)" using assms(3,4) by simp
  have 4: "\<forall>y \<in> set (enumerate 0 db). ?P y \<longrightarrow> y = (i, db ! i)"
  proof (intro ballI impI)
    fix y assume y: "y \<in> set (enumerate 0 db)" and m: "?P y"
    obtain j d where yd: "y = (j, d)" by (cases y)
    with y have j: "j < length db" "db ! j = d" by (auto simp: in_set_enumerate_eq)
    with m yd have "owner_seq (db ! j) = Some (u, n)" by (simp add: owner_seq_match)
    moreover from assms(3,4) have "owner_seq (db ! i) = Some (u, n)" by (simp add: owner_seq_match)
    moreover from assms(1) have "distinct (List.map_filter owner_seq db)" by (simp add: key_unique_def)
    ultimately have "j = i"
      using j(1) assms(2) by (rule distinct_map_filter_nth[rotated 3])
    with yd j show "y = (i, db ! i)" by simp
  qed
  show ?thesis unfolding by_dive_number_def by (rule filter_singleton[OF 1 2 3 4])
qed

lemma key_unique_at_most_one:
  assumes "key_unique db"
  shows "length (by_dive_number (Some u) (Some n) db) \<le> 1"
proof (cases "by_dive_number (Some u) (Some n) db")
  case Nil
  then show ?thesis by simp
next
  case (Cons x xs)
  obtain i d where x: "x = (i, d)" by (cases x)
  with Cons have "(i, d) \<in> set (by_dive_number (Some u) (Some n) db)" by simp
  then have "i < length db" "(db ! i) ''user_id'' = Some u" "(db ! i) ''dive_number'' = Some n"
    by (auto simp: in_by_dive_number)
  with assms have "by_dive_number (Some u) (Some n) db = [(i, db ! i)]"
    by (rule by_dive_number_the_one)
  then show ?thesis by simp
qed

lemma length_by_dive_number:
  "length (by_dive_number (Some u) (Some n) db) = length (filter (\<lambda>d. owner_seq d = Some (u, n)) db)"
proof -
  have "map snd (by_dive_number (Some u) (Some n) db) = filter (\<lambda>d. owner_seq d = Some (u, n)) (map snd (enumerate 0 db))"
    unfolding by_dive_number_def filter_map
    by (rule arg_cong[where f = "map snd"], rule filter_cong) (auto simp: owner_seq_match)
  then have "length (map snd (by_dive_number (Some u) (Some n) db)) = length (filter (\<lambda>d. owner_seq d = Some (u, n)) db)"
    by simp
  then show ?thesis by simp
qed

lemma key_unique_iff:
  "key_unique db \<longleftrightarrow> (\<forall>u n. length (by_dive_number (Some u) (Some n) db) \<le> 1)"
  by (simp add: key_unique_def distinct_map_filter_iff length_by_dive_number)

lemma key_unique_append:
  assumes "key_unique db" "by_dive_number (d ''user_id'') (d ''dive_number'') db = []"
  shows "key_unique (db @ [d])"
proof (cases "owner_seq d")
  case None
  with assms(1) show ?thesis
    by (simp add: key_unique_def map_filter_append List.map_filter_simps)
next
  case (Some k)
  obtain u n where k: "k = (u, n)" by (cases k)
  with Some have dk: "d ''user_id'' = Some u" "d ''dive_number'' = Some n"
    by (simp_all add: owner_seq_match)
  have "k \<notin> set (List.map_filter owner_seq db)"
  proof
    assume "k \<in> set (List.map_filter owner_seq db)"
    then obtain e where e: "e \<in> set db" "owner_seq e = Some k" by (auto simp: set_map_filter)
    then obtain j where j: "j < length db" "db ! j = e" by (auto simp: in_set_conv_nth)
    from e(2) k j have "(db ! j) ''user_id'' = Some u \<and> (db ! j) ''dive_number'' = Some n"
      by (simp add: owner_seq_match)
    moreover from assms(2) dk j(1)
    have "\<not> ((db ! j) ''user_id'' = Some u \<and> (db ! j) ''dive_number'' = Some n)"
      unfolding by_dive_number_empty_iff by metis
    ultimately show False by blast
  qed
  with assms(1) Some show ?thesis
    by (simp add: key_unique_def map_filter_append List.map_filter_simps)
qed

lemma owner_seq_patch:
  assumes "d ''user_id'' = args ''user_id''" "d ''dive_number'' = args ''dive_number''"
    and "f \<noteq> ''user_id''" "f \<noteq> ''dive_number''"
  shows "owner_seq (d ++ args(f \<mapsto> v)) = owner_seq d"
proof -
  have "(d ++ args(f \<mapsto> v)) ''user_id'' = d ''user_id''"
    using assms by (simp add: map_add_def split: option.splits)
  moreover have "(d ++ args(f \<mapsto> v)) ''dive_number'' = d ''dive_number''"
    using assms by (simp add: map_add_def split: option.splits)
  ultimately show ?thesis unfolding owner_seq_def by presburger
qed

subsection \<open>Accepted submissions\<close>

lemma validate_None_iff:
  "validate spec args = None \<longleftrightarrow>
     (\<forall>(f, v) \<in> set spec. accepts v (args f)) \<and> dom args \<subseteq> set (map fst spec)"
proof -
  have "filter (\<lambda>(f, v). \<not> accepts v (args f)) spec = [] \<longleftrightarrow> (\<forall>(f, v) \<in> set spec. accepts v (args f))"
    by (auto simp: filter_empty_conv)
  then show ?thesis
    by (auto simp: validate_def split: list.splits prod.splits)
qed

lemma accepts_v_string: "accepts v_string x \<longleftrightarrow> (\<exists>s. x = Some (Str s))"
  by (cases "(v_string, x)" rule: accepts.cases) auto

lemma accepts_v_number: "accepts v_number x \<longleftrightarrow> (\<exists>r. x = Some (Num r))"
  by (cases "(v_number, x)" rule: accepts.cases) auto

lemma valid_key:
  assumes "validate upsertDive_args args = None"
  shows "\<exists>u n. args ''user_id'' = Some (Str u) \<and> args ''dive_number'' = Some (Num n)"
proof -
  from assms have "accepts v_string (args ''user_id'')" "accepts v_number (args ''dive_number'')"
    by (simp_all add: validate_None_iff upsertDive_args_def)
  then show ?thesis by (auto simp: accepts_v_string accepts_v_number)
qed

lemma valid_no_bookkeeping:
  assumes "validate upsertDive_args args = None"
  shows "args ''logged_at'' = None" "args ''updated_at'' = None"
proof -
  from assms have d: "dom args \<subseteq> set (map fst upsertDive_args)" by (simp add: validate_None_iff)
  have "''logged_at'' \<notin> set (map fst upsertDive_args)" "''updated_at'' \<notin> set (map fst upsertDive_args)"
    by (simp_all add: upsertDive_args_def)
  with d show "args ''logged_at'' = None" "args ''updated_at'' = None" by blast+
qed

subsection \<open>The two branches of the handler\<close>

lemma handler_insert:
  assumes "by_dive_number (args ''user_id'') (args ''dive_number'') db = []"
  shows "handler now args db =
     (Inr \<lparr>id' = length db, action = ''inserted''\<rparr>,
      db @ [args(''logged_at'' \<mapsto> Num now, ''updated_at'' \<mapsto> Num now)])"
  using assms by (simp add: handler_def insert_doc_def)

lemma handler_update:
  assumes "by_dive_number (args ''user_id'') (args ''dive_number'') db = [(i, d)]"
  shows "handler now args db =
     (Inr \<lparr>id' = i, action = ''updated''\<rparr>, db[i := (db ! i) ++ args(''updated_at'' \<mapsto> Num now)])"
proof -
  from assms have "(i, d) \<in> set (by_dive_number (args ''user_id'') (args ''dive_number'') db)" by simp
  then have "i < length db" by (simp add: in_by_dive_number)
  with assms show ?thesis by (simp add: handler_def patch_def)
qed

lemma handler_not_unique:
  assumes "by_dive_number (args ''user_id'') (args ''dive_number'') db = x # y # zs"
  shows "handler now args db = (Inl NotUniqueError, db)"
  using assms by (simp add: handler_def)

lemma handler_key_unique:
  assumes "key_unique db"
  shows "key_unique (snd (handler now args db))"
proof (cases "by_dive_number (args ''user_id'') (args ''dive_number'') db" rule: unique.cases)
  case 1
  let ?d = "args(''logged_at'' \<mapsto> Num now, ''updated_at'' \<mapsto> Num now)"
  have "?d ''user_id'' = args ''user_id''" "?d ''dive_number'' = args ''dive_number''" by simp_all
  with 1 assms have "key_unique (db @ [?d])" by (intro key_unique_append) simp_all
  with 1 show ?thesis by (simp add: handler_insert)
next
  case (2 x)
  obtain i d where x: "x = (i, d)" by (cases x)
  with 2 have "(i, d) \<in> set (by_dive_number (args ''user_id'') (args ''dive_number'') db)" by simp
  then have i: "i < length db" "(db ! i) ''user_id'' = args ''user_id''"
    "(db ! i) ''dive_number'' = args ''dive_number''" by (auto simp: in_by_dive_number)
  then have "owner_seq ((db ! i) ++ args(''updated_at'' \<mapsto> Num now)) = owner_seq (db ! i)"
    by (intro owner_seq_patch) simp_all
  with i(1) have "List.map_filter owner_seq (db[i := (db ! i) ++ args(''updated_at'' \<mapsto> Num now)])
      = List.map_filter owner_seq db" by (intro map_filter_update)
  with assms 2 x show ?thesis by (simp add: handler_update key_unique_def)
next
  case (3 x y zs)
  with assms show ?thesis by (simp add: handler_not_unique)
qed

lemma upsertDive_key_unique:
  "key_unique db \<Longrightarrow> key_unique (snd (upsertDive now args db))"
  by (simp add: upsertDive_def handler_key_unique split: option.splits)

lemma upserts_key_unique:
  "key_unique db \<Longrightarrow> key_unique (upserts subs db)"
  by (induction subs db rule: upserts.induct) (simp_all add: upsertDive_key_unique)

text \<open>
  Every table that calls of \<open>upsertDive\<close> build from the empty table satisfies the
  invariant.
\<close>

lemma reachable_key_unique: "key_unique (upserts subs [])"
  by (rule upserts_key_unique) (simp add: key_unique_def List.map_filter_simps)

lemma upsert_on_existing:
  assumes "key_unique db" "validate upsertDive_args args = None" "i < length db"
    and "(db ! i) ''user_id'' = args ''user_id''" "(db ! i) ''dive_number'' = args ''dive_number''"
  shows "upsertDive now args db =
     (Inr \<lparr>id' = i, action = ''updated''\<rparr>, db[i := (db ! i) ++ args(''updated_at'' \<mapsto> Num now)])"
proof -
  from valid_key[OF assms(2)] obtain u n where
    k: "args ''user_id'' = Some (Str u)" "args ''dive_number'' = Some (Num n)" by blast
  with assms have "by_dive_number (Some (Str u)) (Some (Num n)) db = [(i, db ! i)]"
    by (intro by_dive_number_the_one) simp_all
  with k have "by_dive_number (args ''user_id'') (args ''dive_number'') db = [(i, db ! i)]" by simp
  then have "handler now args db =
     (Inr \<lparr>id' = i, action = ''updated''\<rparr>, db[i := (db ! i) ++ args(''updated_at'' \<mapsto> Num now)])"
    by (rule handler_update)
  with assms(2) show ?thesis by (simp add: upsertDive_def)
qed

lemma upsert_on_absent:
  assumes "validate upsertDive_args args = None"
    and "\<forall>d \<in> set db. \<not> (d ''user_id'' = args ''user_id'' \<and> d ''dive_number'' = args ''dive_number'')"
  shows "upsertDive now args db =
     (Inr \<lparr>id' = length db, action = ''inserted''\<rparr>,
      db @ [args(''logged_at'' \<mapsto> Num now, ''updated_at'' \<mapsto> Num now)])"
proof -
  from assms(2) have "by_dive_number (args ''user_id'') (args ''dive_number'') db = []"
    by (simp add: by_dive_number_empty_iff)
  then have "handler now args db =
     (Inr \<lparr>id' = length db, action = ''inserted''\<rparr>,
      db @ [args(''logged_at'' \<mapsto> Num now, ''updated_at'' \<mapsto> Num now)])"
    by (rule handler_insert)
  with assms(1) show ?thesis by (simp add: upsertDive_def)
qed

lemma patched_fields:
  assumes "args ''updated_at'' = None"
  shows "(d ++ args(''updated_at'' \<mapsto> Num now)) f =
     (if f = ''updated_at'' then Some (Num now) else case args f of None \<Rightarrow> d f | Some v \<Rightarrow> Some v)"
  using assms by (simp add: map_add_def)

text \<open>After any accepted submission the key is held by exactly one document, which
  carries every supplied field; the reported identity is that document's.\<close>

lemma upsert_then_lookup:
  assumes "key_unique db" "validate upsertDive_args args = None"
  shows "\<exists>i. i < length (snd (upsertDive now args db)) \<and>
           (\<exists>a. fst (upsertDive now args db) = Inr \<lparr>id' = i, action = a\<rparr>) \<and>
           by_dive_number (args ''user_id'') (args ''dive_number'') (snd (upsertDive now args db))
             = [(i, snd (upsertDive now args db) ! i)] \<and>
           (\<forall>f v. args f = Some v \<longrightarrow> (snd (upsertDive now args db) ! i) f = Some v)"
proof -
  let ?db' = "snd (upsertDive now args db)"
  from valid_key[OF assms(2)] obtain u n where
    k: "args ''user_id'' = Some (Str u)" "args ''dive_number'' = Some (Num n)" by blast
  note nb = valid_no_bookkeeping[OF assms(2)]
  have inv': "key_unique ?db'" using assms(1) by (rule upsertDive_key_unique)
  show ?thesis
  proof (cases "\<exists>i < length db. (db ! i) ''user_id'' = args ''user_id'' \<and> (db ! i) ''dive_number'' = args ''dive_number''")
    case True
    then obtain i where i: "i < length db" "(db ! i) ''user_id'' = args ''user_id''"
      "(db ! i) ''dive_number'' = args ''dive_number''" by blast
    have eq: "upsertDive now args db =
       (Inr \<lparr>id' = i, action = ''updated''\<rparr>, db[i := (db ! i) ++ args(''updated_at'' \<mapsto> Num now)])"
      using assms i by (rule upsert_on_existing)
    have new: "?db' ! i = (db ! i) ++ args(''updated_at'' \<mapsto> Num now)" using i(1) by (simp add: eq)
    have len: "i < length ?db'" using i(1) by (simp add: eq)
    have sup: "\<forall>f v. args f = Some v \<longrightarrow> (?db' ! i) f = Some v"
      using nb(2) by (auto simp: new patched_fields)
    with k have "(?db' ! i) ''user_id'' = Some (Str u)" "(?db' ! i) ''dive_number'' = Some (Num n)"
      by blast+
    with inv' len have "by_dive_number (Some (Str u)) (Some (Num n)) ?db' = [(i, ?db' ! i)]"
      by (intro by_dive_number_the_one)
    with k len sup eq show ?thesis by auto
  next
    case False
    then have "\<forall>d \<in> set db. \<not> (d ''user_id'' = args ''user_id'' \<and> d ''dive_number'' = args ''dive_number'')"
      by (metis in_set_conv_nth)
    with assms(2) have eq: "upsertDive now args db =
       (Inr \<lparr>id' = length db, action = ''inserted''\<rparr>,
        db @ [args(''logged_at'' \<mapsto> Num now, ''updated_at'' \<mapsto> Num now)])"
      by (rule upsert_on_absent)
    have new: "?db' ! length db = args(''logged_at'' \<mapsto> Num now, ''updated_at'' \<mapsto> Num now)"
      by (simp add: eq)
    have len: "length db < length ?db'" by (simp add: eq)
    have sup: "\<forall>f v. args f = Some v \<longrightarrow> (?db' ! length db) f = Some v"
      using nb by (auto simp: new)
    with k have "(?db' ! length db) ''user_id'' = Some (Str u)"
      "(?db' ! length db) ''dive_number'' = Some (Num n)" by blast+
    with inv' len have "by_dive_number (Some (Str u)) (Some (Num n)) ?db' = [(length db, ?db' ! length db)]"
      by (intro by_dive_number_the_one)
    with k len sup eq show ?thesis by auto
  qed
qed

lemma upsert_existing_effect:
  assumes "key_unique db" and "validate upsertDive_args args = None"
    and "i < length db"
    and "(db ! i) ''user_id'' = args ''user_id''" and "(db ! i) ''dive_number'' = args ''dive_number''"
  shows "fst (upsertDive now args db) = Inr \<lparr>id' = i, action = ''updated''\<rparr> \<and>
         length (snd (upsertDive now args db)) = length db \<and>
         (\<forall>j < length db. j \<noteq> i \<longrightarrow> snd (upsertDive now args db) ! j = db ! j) \<and>
         (\<forall>f v. args f = Some v \<longrightarrow> (snd (upsertDive now args db) ! i) f = Some v) \<and>
         (\<forall>f. args f = None \<and> f \<noteq> ''updated_at'' \<longrightarrow>
              (snd (upsertDive now args db) ! i) f = (db ! i) f) \<and>
         (snd (upsertDive now args db) ! i) ''updated_at'' = Some (Num now) \<and>
         (snd (upsertDive now args db) ! i) ''logged_at'' = (db ! i) ''logged_at'' \<and>
         by_dive_number (args ''user_id'') (args ''dive_number'') (snd (upsertDive now args db))
           = [(i, snd (upsertDive now args db) ! i)]"
proof -
  let ?db' = "snd (upsertDive now args db)"
  have eq: "upsertDive now args db =
     (Inr \<lparr>id' = i, action = ''updated''\<rparr>, db[i := (db ! i) ++ args(''updated_at'' \<mapsto> Num now)])"
    using assms by (rule upsert_on_existing)
  note nb = valid_no_bookkeeping[OF assms(2)]
  have new: "?db' ! i = (db ! i) ++ args(''updated_at'' \<mapsto> Num now)"
    using assms(3) by (simp add: eq)
  have 1: "fst (upsertDive now args db) = Inr \<lparr>id' = i, action = ''updated''\<rparr>" by (simp add: eq)
  have 2: "length ?db' = length db" by (simp add: eq)
  have 3: "\<forall>j < length db. j \<noteq> i \<longrightarrow> ?db' ! j = db ! j" by (simp add: eq)
  have 4: "\<forall>f v. args f = Some v \<longrightarrow> (?db' ! i) f = Some v"
    using nb(2) by (auto simp: new patched_fields)
  have 5: "\<forall>f. args f = None \<and> f \<noteq> ''updated_at'' \<longrightarrow> (?db' ! i) f = (db ! i) f"
    by (simp add: new map_add_def)
  have 6: "(?db' ! i) ''updated_at'' = Some (Num now)" by (simp add: new)
  have 7: "(?db' ! i) ''logged_at'' = (db ! i) ''logged_at''"
    using nb by (simp add: new map_add_def)
  from upsert_then_lookup[OF assms(1,2), of now] obtain k where
    k: "by_dive_number (args ''user_id'') (args ''dive_number'') ?db' = [(k, ?db' ! k)]"
      "\<exists>a. fst (upsertDive now args db) = Inr \<lparr>id' = k, action = a\<rparr>"
    by blast
  from k(2) 1 have "k = i" by auto
  with k(1) have 8: "by_dive_number (args ''user_id'') (args ''dive_number'') ?db' = [(i, ?db' ! i)]"
    by simp
  from 1 2 3 4 5 6 7 8 show ?thesis by blast
qed

lemma upsert_absent_effect:
  assumes "validate upsertDive_args args = None"
    and "\<forall>d \<in> set db. \<not> (d ''user_id'' = args ''user_id'' \<and> d ''dive_number'' = args ''dive_number'')"
  shows "fst (upsertDive now args db) = Inr \<lparr>id' = length db, action = ''inserted''\<rparr> \<and>
         length (snd (upsertDive now args db)) = Suc (length db) \<and>
         take (length db) (snd (upsertDive now args db)) = db \<and>
         (snd (upsertDive now args db) ! length db) ''logged_at'' = Some (Num now) \<and>
         (snd (upsertDive now args db) ! length db) ''updated_at'' = Some (Num now) \<and>
         (\<forall>f. f \<noteq> ''logged_at'' \<and> f \<noteq> ''updated_at'' \<longrightarrow>
              (snd (upsertDive now args db) ! length db) f = args f) \<and>
         by_dive_number (args ''user_id'') (args ''dive_number'') (snd (upsertDive now args db))
           = [(length db, snd (upsertDive now args db) ! length db)]"
proof -
  have eq: "upsertDive now args db =
     (Inr \<lparr>id' = length db, action = ''inserted''\<rparr>,
      db @ [args(''logged_at'' \<mapsto> Num now, ''updated_at'' \<mapsto> Num now)])"
    using assms by (rule upsert_on_absent)
  from assms(2) have "by_dive_number (args ''user_id'') (args ''dive_number'') db = []"
    by (simp add: by_dive_number_empty_iff)
  then show ?thesis by (simp add: eq by_dive_number_snoc)
qed

lemma upsert_twice:
  assumes "key_unique db"
    and "validate upsertDive_args args1 = None" and "validate upsertDive_args args2 = None"
    and "args2 ''user_id'' = args1 ''user_id''" and "args2 ''dive_number'' = args1 ''dive_number''"
  shows "\<exists>i. by_dive_number (args1 ''user_id'') (args1 ''dive_number'') (snd (upsertDive t1 args1 db))
              = [(i, snd (upsertDive t1 args1 db) ! i)] \<and>
           fst (upsertDive t2 args2 (snd (upsertDive t1 args1 db))) = Inr \<lparr>id' = i, action = ''updated''\<rparr> \<and>
           by_dive_number (args1 ''user_id'') (args1 ''dive_number'')
                (snd (upsertDive t2 args2 (snd (upsertDive t1 args1 db))))
              = [(i, snd (upsertDive t2 args2 (snd (upsertDive t1 args1 db))) ! i)] \<and>
           length (snd (upsertDive t2 args2 (snd (upsertDive t1 args1 db))))
              = length (snd (upsertDive t1 args1 db)) \<and>
           (snd (upsertDive t2 args2 (snd (upsertDive t1 args1 db))) ! i) ''logged_at''
              = (snd (upsertDive t1 args1 db) ! i) ''logged_at'' \<and>
           (snd (upsertDive t2 args2 (snd (upsertDive t1 args1 db))) ! i) ''updated_at'' = Some (Num t2) \<and>
           (\<forall>f. args2 f = None \<and> f \<noteq> ''updated_at'' \<longrightarrow>
              (snd (upsertDive t2 args2 (snd (upsertDive t1 args1 db))) ! i) f
                = (snd (upsertDive t1 args1 db) ! i) f) \<and>
           (\<forall>f v. args1 f = Some v \<longrightarrow> (snd (upsertDive t1 args1 db) ! i) f = Some v)"
proof -
  let ?db1 = "snd (upsertDive t1 args1 db)"
  from upsert_then_lookup[OF assms(1,2), of t1] obtain i where
    i: "i < length ?db1"
      "by_dive_number (args1 ''user_id'') (args1 ''dive_number'') ?db1 = [(i, ?db1 ! i)]"
      "\<forall>f v. args1 f = Some v \<longrightarrow> (?db1 ! i) f = Some v"
    by blast
  from valid_key[OF assms(2)] obtain u n where
    k: "args1 ''user_id'' = Some (Str u)" "args1 ''dive_number'' = Some (Num n)" by blast
  with i(3) assms(4,5) have m: "(?db1 ! i) ''user_id'' = args2 ''user_id''"
    "(?db1 ! i) ''dive_number'' = args2 ''dive_number''" by simp_all
  have inv1: "key_unique ?db1" using assms(1) by (rule upsertDive_key_unique)
  from upsert_existing_effect[OF inv1 assms(3) i(1) m, of t2] i(2,3) assms(4,5)
  show ?thesis by (intro exI[of _ i]) simp
qed

subsection \<open>The sample submissions\<close>

lemma required_only_valid: "validate upsertDive_args required_only = None"
  by (simp add: validate_def upsertDive_args_def required_only_def)

lemma with_notes_valid: "validate upsertDive_args with_notes = None"
  by (simp add: validate_def upsertDive_args_def required_only_def with_notes_def)

lemma next_dive_valid: "validate upsertDive_args next_dive = None"
  by (simp add: validate_def upsertDive_args_def required_only_def next_dive_def)

lemma key_unique_stored: "key_unique [stored_dive]"
  by (simp add: key_unique_def List.map_filter_simps split: option.splits)

lemma key_unique_empty: "key_unique []"
  by (simp add: key_unique_def List.map_filter_simps)

lemma stored_dive_key:
  "stored_dive ''user_id'' = Some (Str ''u1'')" "stored_dive ''dive_number'' = Some (Num 5)"
  "stored_dive ''logged_at'' = Some (Num 1000)" "stored_dive ''notes'' = Some (Str ''first'')"
  by (simp_all add: stored_dive_def with_notes_def required_only_def)

lemma required_only_key:
  "required_only ''user_id'' = Some (Str ''u1'')" "required_only ''dive_number'' = Some (Num 5)"
  "required_only ''duration'' = Some (Num 45)" "required_only ''notes'' = None"
  by (simp_all add: required_only_def)

lemma with_notes_key:
  "with_notes ''user_id'' = Some (Str ''u1'')" "with_notes ''dive_number'' = Some (Num 5)"
  "with_notes ''notes'' = Some (Str ''first'')"
  by (simp_all add: with_notes_def required_only_def)

lemma next_dive_key:
  "next_dive ''user_id'' = Some (Str ''u1'')" "next_dive ''dive_number'' = Some (Num 6)"
  by (simp_all add: next_dive_def required_only_def)

lemma missing_duration_rejected:
  "validate upsertDive_args missing_duration = Some (ArgumentValidationError ''duration'')"
  by (simp add: validate_def upsertDive_args_def missing_duration_def required_only_def)

lemma upserts_sample:
  "length (upserts [(2000, required_only), (3000, next_dive), (4000, with_notes)] [stored_dive]) = 2"
  by (simp add: upsertDive_def required_only_valid with_notes_valid next_dive_valid handler_def
      by_dive_number_def stored_dive_key required_only_key with_notes_key next_dive_key
      patch_def insert_doc_def)

section \<open>Claims about the upsert\<close>

text \<open>
  C1. When the (owner, sequence number) key of an accepted submission is held by a
  document of the table, \<open>upsertDive\<close> reports \<open>updated\<close> with that document's identity,
  writes every supplied field onto it, sets \<open>updated_at\<close> to the time of the call, and
  leaves \<open>logged_at\<close>, the number of documents and every other document as they were.
  Submitting the same key twice, from any table that satisfies the invariant, ends with
  exactly one document for the key: the second call is an update of the document the
  first call left, its \<open>logged_at\<close> is unchanged by the second call and its \<open>updated_at\<close>
  is the time of the second call.
\<close>

theorem upsert_existing_key_updates:
  assumes "key_unique db"
    and "validate upsertDive_args args = None" and "validate upsertDive_args args2 = None"
    and "args2 ''user_id'' = args ''user_id''" and "args2 ''dive_number'' = args ''dive_number''"
  shows "let db1 = snd (upsertDive now args db);
             db2 = snd (upsertDive now2 args2 db1)
         in (i < length db \<and> (db ! i) ''user_id'' = args ''user_id'' \<and>
               (db ! i) ''dive_number'' = args ''dive_number'' \<longrightarrow>
             fst (upsertDive now args db) = Inr \<lparr>id' = i, action = ''updated''\<rparr> \<and>
             length db1 = length db \<and>
             (\<forall>j < length db. j \<noteq> i \<longrightarrow> db1 ! j = db ! j) \<and>
             (\<forall>f v. args f = Some v \<longrightarrow> (db1 ! i) f = Some v) \<and>
             (db1 ! i) ''updated_at'' = Some (Num now) \<and>
             (db1 ! i) ''logged_at'' = (db ! i) ''logged_at'' \<and>
             by_dive_number (args ''user_id'') (args ''dive_number'') db1 = [(i, db1 ! i)]) \<and>
            (\<exists>k. by_dive_number (args ''user_id'') (args ''dive_number'') db1 = [(k, db1 ! k)] \<and>
                 fst (upsertDive now2 args2 db1) = Inr \<lparr>id' = k, action = ''updated''\<rparr> \<and>
                 by_dive_number (args ''user_id'') (args ''dive_number'') db2 = [(k, db2 ! k)] \<and>
                 length db2 = length db1 \<and>
                 (db2 ! k) ''logged_at'' = (db1 ! k) ''logged_at'' \<and>
                 (db2 ! k) ''updated_at'' = Some (Num now2))"
  unfolding Let_def
proof (rule conjI)
  show "i < length db \<and> (db ! i) ''user_id'' = args ''user_id'' \<and>
            (db ! i) ''dive_number'' = args ''dive_number'' \<longrightarrow>
          fst (upsertDive now args db) = Inr \<lparr>id' = i, action = ''updated''\<rparr> \<and>
          length (snd (upsertDive now args db)) = length db \<and>
          (\<forall>j < length db. j \<noteq> i \<longrightarrow> snd (upsertDive now args db) ! j = db ! j) \<and>
          (\<forall>f v. args f = Some v \<longrightarrow> (snd (upsertDive now args db) ! i) f = Some v) \<and>
          (snd (upsertDive now args db) ! i) ''updated_at'' = Some (Num now) \<and>
          (snd (upsertDive now args db) ! i) ''logged_at'' = (db ! i) ''logged_at'' \<and>
          by_dive_number (args ''user_id'') (args ''dive_number'') (snd (upsertDive now args db))
            = [(i, snd (upsertDive now args db) ! i)]"
  proof
    assume h: "i < length db \<and> (db ! i) ''user_id'' = args ''user_id'' \<and>
            (db ! i) ''dive_number'' = args ''dive_number''"
    then have "i < length db" "(db ! i) ''user_id'' = args ''user_id''"
      "(db ! i) ''dive_number'' = args ''dive_number''" by simp_all
    from upsert_existing_effect[OF assms(1,2) this, of now]
    show "fst (upsertDive now args db) = Inr \<lparr>id' = i, action = ''updated''\<rparr> \<and>
          length (snd (upsertDive now args db)) = length db \<and>
          (\<forall>j < length db. j \<noteq> i \<longrightarrow> snd (upsertDive now args db) ! j = db ! j) \<and>
          (\<forall>f v. args f = Some v \<longrightarrow> (snd (upsertDive now args db) ! i) f = Some v) \<and>
          (snd (upsertDive now args db) ! i) ''updated_at'' = Some (Num now) \<and>
          (snd (upsertDive now args db) ! i) ''logged_at'' = (db ! i) ''logged_at'' \<and>
          by_dive_number (args ''user_id'') (args ''dive_number'') (snd (upsertDive now args db))
            = [(i, snd (upsertDive now args db) ! i)]"
      by blast
  qed
next
  from upsert_twice[OF assms, of now now2] obtain k where
    k: "by_dive_number (args ''user_id'') (args ''dive_number'') (snd (upsertDive now args db))
              = [(k, snd (upsertDive now args db) ! k)]"
       "fst (upsertDive now2 args2 (snd (upsertDive now args db))) = Inr \<lparr>id' = k, action = ''updated''\<rparr>"
       "by_dive_number (args ''user_id'') (args ''dive_number'')
                (snd (upsertDive now2 args2 (snd (upsertDive now args db))))
              = [(k, snd (upsertDive now2 args2 (snd (upsertDive now args db))) ! k)]"
       "length (snd (upsertDive now2 args2 (snd (upsertDive now args db))))
              = length (snd (upsertDive now args db))"
       "(snd (upsertDive now2 args2 (snd (upsertDive now args db))) ! k) ''logged_at''
              = (snd (upsertDive now args db) ! k) ''logged_at''"
       "(snd (upsertDive now2 args2 (snd (upsertDive now args db))) ! k) ''updated_at'' = Some (Num now2)"
    by blast
  then show "\<exists>k. by_dive_number (args ''user_id'') (args ''dive_number'') (snd (upsertDive now args db))
                = [(k, snd (upsertDive now args db) ! k)] \<and>
              fst (upsertDive now2 args2 (snd (upsertDive now args db)))
                = Inr \<lparr>id' = k, action = ''updated''\<rparr> \<and>
              by_dive_number (args ''user_id'') (args ''dive_number'')
                  (snd (upsertDive now2 args2 (snd (upsertDive now args db))))
                = [(k, snd (upsertDive now2 args2 (snd (upsertDive now args db))) ! k)] \<and>
              length (snd (upsertDive now2 args2 (snd (upsertDive now args db))))
                = length (snd (upsertDive now args db)) \<and>
              (snd (upsertDive now2 args2 (snd (upsertDive now args db))) ! k) ''logged_at''
                = (snd (upsertDive now args db) ! k) ''logged_at'' \<and>
              (snd (upsertDive now2 args2 (snd (upsertDive now args db))) ! k) ''updated_at''
                = Some (Num now2)"
    by blast
qed

theorem upsert_existing_key_updates_witness:
  "key_unique [stored_dive] \<and> validate upsertDive_args required_only = None \<and>
   fst (upsertDive 2000 required_only [stored_dive]) = Inr \<lparr>id' = 0, action = ''updated''\<rparr> \<and>
   length (snd (upsertDive 2000 required_only [stored_dive])) = 1 \<and>
   (snd (upsertDive 2000 required_only [stored_dive]) ! 0) ''duration'' = Some (Num 45) \<and>
   (snd (upsertDive 2000 required_only [stored_dive]) ! 0) ''updated_at'' = Some (Num 2000) \<and>
   (snd (upsertDive 2000 required_only [stored_dive]) ! 0) ''logged_at'' = Some (Num 1000) \<and>
   fst (upsertDive 3000 required_only (snd (upsertDive 2000 required_only [stored_dive])))
     = Inr \<lparr>id' = 0, action = ''updated''\<rparr> \<and>
   length (snd (upsertDive 3000 required_only (snd (upsertDive 2000 required_only [stored_dive])))) = 1 \<and>
   (snd (upsertDive 3000 required_only (snd (upsertDive 2000 required_only [stored_dive]))) ! 0) ''logged_at''
     = Some (Num 1000) \<and>
   (snd (upsertDive 3000 required_only (snd (upsertDive 2000 required_only [stored_dive]))) ! 0) ''updated_at''
     = Some (Num 3000)"
proof -
  note t = upsert_existing_key_updates[OF key_unique_stored required_only_valid required_only_valid
      refl refl, where i = 0 and now = 2000 and ?now2.0 = 3000, unfolded Let_def]
  have pre: "0 < length [stored_dive] \<and> ([stored_dive] ! 0) ''user_id'' = required_only ''user_id'' \<and>
      ([stored_dive] ! 0) ''dive_number'' = required_only ''dive_number''"
    by (simp add: stored_dive_key required_only_key)
  note one = t[THEN conjunct1, rule_format, OF pre]
  note o1 = one[THEN conjunct1]
  note o2 = one[THEN conjunct2, THEN conjunct1]
  note o4 = one[THEN conjunct2, THEN conjunct2, THEN conjunct2, THEN conjunct1, rule_format, OF required_only_key(3)]
  note o5 = one[THEN conjunct2, THEN conjunct2, THEN conjunct2, THEN conjunct2, THEN conjunct1]
  note o6 = one[THEN conjunct2, THEN conjunct2, THEN conjunct2, THEN conjunct2, THEN conjunct2, THEN conjunct1]
  note o7 = one[THEN conjunct2, THEN conjunct2, THEN conjunct2, THEN conjunct2, THEN conjunct2, THEN conjunct2]
  from t[THEN conjunct2] obtain k where two:
    "by_dive_number (required_only ''user_id'') (required_only ''dive_number'') (snd (upsertDive 2000 required_only [stored_dive]))
                = [(k, snd (upsertDive 2000 required_only [stored_dive]) ! k)] \<and>
    fst (upsertDive 3000 required_only (snd (upsertDive 2000 required_only [stored_dive])))
                = Inr \<lparr>id' = k, action = ''updated''\<rparr> \<and>
    by_dive_number (required_only ''user_id'') (required_only ''dive_number'')
                  (snd (upsertDive 3000 required_only (snd (upsertDive 2000 required_only [stored_dive]))))
                = [(k, snd (upsertDive 3000 required_only (snd (upsertDive 2000 required_only [stored_dive]))) ! k)] \<and>
    length (snd (upsertDive 3000 required_only (snd (upsertDive 2000 required_only [stored_dive]))))
                = length (snd (upsertDive 2000 required_only [stored_dive])) \<and>
    (snd (upsertDive 3000 required_only (snd (upsertDive 2000 required_only [stored_dive]))) ! k) ''logged_at''
                = (snd (upsertDive 2000 required_only [stored_dive]) ! k) ''logged_at'' \<and>
    (snd (upsertDive 3000 required_only (snd (upsertDive 2000 required_only [stored_dive]))) ! k) ''updated_at''
                = Some (Num 3000)" ..
  from two[THEN conjunct1] o7
  have "[(k, snd (upsertDive 2000 required_only [stored_dive]) ! k)]
      = [(0, snd (upsertDive 2000 required_only [stored_dive]) ! 0)]"
    by (rule trans[OF sym])
  then have k0: "k = 0" by simp
  note t2 = two[unfolded k0]
  note p2 = t2[THEN conjunct2, THEN conjunct1]
  note p4 = t2[THEN conjunct2, THEN conjunct2, THEN conjunct2, THEN conjunct1]
  note p5 = t2[THEN conjunct2, THEN conjunct2, THEN conjunct2, THEN conjunct2, THEN conjunct1]
  note p6 = t2[THEN conjunct2, THEN conjunct2, THEN conjunct2, THEN conjunct2, THEN conjunct2]
  show ?thesis
    by (simp only: key_unique_stored required_only_valid o1 o2 o4 o5 o6 p2 p4 p5 p6)
       (simp add: stored_dive_key)
qed

text \<open>
  C2. When no document of the table holds the (owner, sequence number) key of an accepted
  submission, \<open>upsertDive\<close> appends one document, reports \<open>inserted\<close> with the new
  document's identity, and the new document has \<open>logged_at\<close> and \<open>updated_at\<close> both
  equal to the time of the call and every other field as submitted; the lookup by the key
  then finds exactly this document.
\<close>

theorem upsert_absent_key_inserts:
  assumes "validate upsertDive_args args = None"
    and "\<forall>d \<in> set db. \<not> (d ''user_id'' = args ''user_id'' \<and> d ''dive_number'' = args ''dive_number'')"
  shows "let db1 = snd (upsertDive now args db)
         in fst (upsertDive now args db) = Inr \<lparr>id' = length db, action = ''inserted''\<rparr> \<and>
            length db1 = Suc (length db) \<and>
            take (length db) db1 = db \<and>
            (db1 ! length db) ''logged_at'' = Some (Num now) \<and>
            (db1 ! length db) ''updated_at'' = Some (Num now) \<and>
            (\<forall>f. f \<noteq> ''logged_at'' \<and> f \<noteq> ''updated_at'' \<longrightarrow> (db1 ! length db) f = args f) \<and>
            by_dive_number (args ''user_id'') (args ''dive_number'') db1 = [(length db, db1 ! length db)]"
  unfolding Let_def using assms by (rule upsert_absent_effect)

theorem upsert_absent_key_inserts_witness:
  "validate upsertDive_args with_notes = None \<and>
   fst (upsertDive 1000 with_notes []) = Inr \<lparr>id' = 0, action = ''inserted''\<rparr> \<and>
   length (snd (upsertDive 1000 with_notes [])) = 1 \<and>
   (snd (upsertDive 1000 with_notes []) ! 0) ''logged_at'' = Some (Num 1000) \<and>
   (snd (upsertDive 1000 with_notes []) ! 0) ''updated_at'' = Some (Num 1000) \<and>
   (snd (upsertDive 1000 with_notes []) ! 0) ''notes'' = Some (Str ''first'') \<and>
   by_dive_number (Some (Str ''u1'')) (Some (Num 5)) (snd (upsertDive 1000 with_notes []))
     = [(0, snd (upsertDive 1000 with_notes []) ! 0)]"
proof -
  have pre: "\<forall>d \<in> set ([] :: table).
      \<not> (d ''user_id'' = with_notes ''user_id'' \<and> d ''dive_number'' = with_notes ''dive_number'')"
    by simp
  note t = upsert_absent_key_inserts[OF with_notes_valid pre, where now = 1000, unfolded Let_def]
  have k: "with_notes ''user_id'' = Some (Str ''u1'')" "with_notes ''dive_number'' = Some (Num 5)"
    "with_notes ''notes'' = Some (Str ''first'')"
    by (simp_all add: with_notes_def required_only_def)
  have "(snd (upsertDive 1000 with_notes []) ! length ([] :: table)) ''notes'' = with_notes ''notes''"
    using t[THEN conjunct2, THEN conjunct2, THEN conjunct2, THEN conjunct2, THEN conjunct2, THEN conjunct1]
    by simp
  with t with_notes_valid show ?thesis by (simp add: k)
qed

text \<open>
  C3. From a table in which every (owner, sequence number) pair is held by at most one
  document, any finite sequence of calls of \<open>upsertDive\<close> (accepted or rejected) leads
  to a table in which every such pair is again held by at most one document.
\<close>

theorem upserts_keep_key_unique:
  assumes "\<forall>u n. length (by_dive_number (Some u) (Some n) db) \<le> 1"
  shows "length (by_dive_number (Some u) (Some n) (upserts subs db)) \<le> 1"
proof -
  from assms have "key_unique db" by (simp add: key_unique_iff)
  then have "key_unique (upserts subs db)" by (rule upserts_key_unique)
  then show ?thesis by (rule key_unique_at_most_one)
qed

theorem upserts_keep_key_unique_witness:
  "(\<forall>u n. length (by_dive_number (Some u) (Some n) [stored_dive]) \<le> 1) \<and>
   length (by_dive_number (Some (Str ''u1'')) (Some (Num 5))
      (upserts [(2000, required_only), (3000, next_dive), (4000, with_notes)] [stored_dive])) \<le> 1 \<and>
   length (by_dive_number (Some (Str ''u1'')) (Some (Num 6))
      (upserts [(2000, required_only), (3000, next_dive), (4000, with_notes)] [stored_dive])) \<le> 1 \<and>
   length (upserts [(2000, required_only), (3000, next_dive), (4000, with_notes)] [stored_dive]) = 2"
proof -
  have pre: "\<forall>u n. length (by_dive_number (Some u) (Some n) [stored_dive]) \<le> 1"
    by (simp add: by_dive_number_def)
  from upserts_keep_key_unique[OF pre, of "Str ''u1''" "Num 5"
        "[(2000, required_only), (3000, next_dive), (4000, with_notes)]"]
      upserts_keep_key_unique[OF pre, of "Str ''u1''" "Num 6"
        "[(2000, required_only), (3000, next_dive), (4000, with_notes)]"]
      pre upserts_sample
  show ?thesis by (intro conjI)
qed

lemma validate_rejects:
  assumes "(f, v) \<in> set spec" "\<not> accepts v (args f)"
  shows "\<exists>g w. (g, w) \<in> set spec \<and> \<not> accepts w (args g) \<and>
           validate spec args = Some (ArgumentValidationError g)"
proof -
  let ?bad = "filter (\<lambda>(f, v). \<not> accepts v (args f)) spec"
  from assms have "(f, v) \<in> set ?bad" by simp
  then obtain g w rest where b: "?bad = (g, w) # rest" by (cases ?bad) auto
  then have "(g, w) \<in> set ?bad" by simp
  then have "(g, w) \<in> set spec" "\<not> accepts w (args g)" by auto
  moreover from b have "validate spec args = Some (ArgumentValidationError g)"
    by (simp add: validate_def)
  ultimately show ?thesis by blast
qed

lemma validate_upd:
  assumes "validate spec args = None"
    and "\<forall>v. (k, v) \<in> set spec \<longrightarrow> accepts v (Some x)" and "k \<in> fst ` set spec"
  shows "validate spec (args(k \<mapsto> x)) = None"
proof -
  from assms(1) have a: "\<forall>(f, v) \<in> set spec. accepts v (args f)"
    and d: "dom args \<subseteq> set (map fst spec)"
    by (simp_all add: validate_None_iff)
  have "\<forall>(f, v) \<in> set spec. accepts v ((args(k \<mapsto> x)) f)"
  proof (intro ballI, clarify)
    fix f v assume fv: "(f, v) \<in> set spec"
    show "accepts v ((args(k \<mapsto> x)) f)"
    proof (cases "f = k")
      case True
      with fv assms(2) show ?thesis by simp
    next
      case False
      with fv a show ?thesis by auto
    qed
  qed
  moreover from d assms(3) have "dom (args(k \<mapsto> x)) \<subseteq> set (map fst spec)" by auto
  ultimately show ?thesis by (simp only: validate_None_iff simp_thms)
qed

lemma number_fields:
  "\<forall>v. (''duration'', v) \<in> set upsertDive_args \<longrightarrow> accepts v (Some (Num x))"
  "\<forall>v. (''max_depth'', v) \<in> set upsertDive_args \<longrightarrow> accepts v (Some (Num x))"
  "\<forall>v. (''dive_number'', v) \<in> set upsertDive_args \<longrightarrow> accepts v (Some (Num x))"
  "''duration'' \<in> fst ` set upsertDive_args"
  "''max_depth'' \<in> fst ` set upsertDive_args"
  "''dive_number'' \<in> fst ` set upsertDive_args"
  by (simp_all add: upsertDive_args_def)

lemma validate_ignores_range:
  assumes "validate upsertDive_args args = None"
  shows "validate upsertDive_args
           (args(''duration'' \<mapsto> Num x, ''max_depth'' \<mapsto> Num y, ''dive_number'' \<mapsto> Num z)) = None"
  by (intro validate_upd number_fields assms)

text \<open>
  C4, as the code has it. A submission in which a declared field is missing or of the
  wrong kind is rejected with an argument validation error that names a field whose
  validator rejects, and the table is left exactly as it was. No range is checked: an
  accepted submission stays accepted when its duration, maximal depth and sequence number
  are replaced by any numbers whatsoever, and on a table that satisfies the invariant
  it is then written with these numbers.
\<close>

theorem upsert_rejects_missing_fields_only:
  assumes "(f, v) \<in> set upsertDive_args" and "\<not> accepts v (args f)"
    and "validate upsertDive_args ok = None"
  shows "(\<exists>g w. (g, w) \<in> set upsertDive_args \<and> \<not> accepts w (args g) \<and>
            upsertDive now args db = (Inl (ArgumentValidationError g), db)) \<and>
         (let any = ok(''duration'' \<mapsto> Num x, ''max_depth'' \<mapsto> Num y, ''dive_number'' \<mapsto> Num z);
              db1 = snd (upsertDive now any db)
          in validate upsertDive_args any = None \<and>
             (key_unique db \<longrightarrow>
                (\<exists>i a. fst (upsertDive now any db) = Inr \<lparr>id' = i, action = a\<rparr> \<and>
                       (db1 ! i) ''duration'' = Some (Num x) \<and>
                       (db1 ! i) ''max_depth'' = Some (Num y) \<and>
                       (db1 ! i) ''dive_number'' = Some (Num z))))"
proof -
  let ?any = "ok(''duration'' \<mapsto> Num x, ''max_depth'' \<mapsto> Num y, ''dive_number'' \<mapsto> Num z)"
  from validate_rejects[of f v upsertDive_args args, OF assms(1,2)] obtain g w where
    "(g, w) \<in> set upsertDive_args" "\<not> accepts w (args g)"
    "validate upsertDive_args args = Some (ArgumentValidationError g)" by blast
  then have 1: "\<exists>g w. (g, w) \<in> set upsertDive_args \<and> \<not> accepts w (args g) \<and>
            upsertDive now args db = (Inl (ArgumentValidationError g), db)"
    by (auto simp: upsertDive_def)
  have 2: "validate upsertDive_args ?any = None" using assms(3) by (rule validate_ignores_range)
  have 3: "key_unique db \<longrightarrow>
     (\<exists>i a. fst (upsertDive now ?any db) = Inr \<lparr>id' = i, action = a\<rparr> \<and>
            (snd (upsertDive now ?any db) ! i) ''duration'' = Some (Num x) \<and>
            (snd (upsertDive now ?any db) ! i) ''max_depth'' = Some (Num y) \<and>
            (snd (upsertDive now ?any db) ! i) ''dive_number'' = Some (Num z))"
  proof
    assume "key_unique db"
    from upsert_then_lookup[OF this 2, of now] obtain i a where
      i: "fst (upsertDive now ?any db) = Inr \<lparr>id' = i, action = a\<rparr>"
        "\<forall>f v. ?any f = Some v \<longrightarrow> (snd (upsertDive now ?any db) ! i) f = Some v"
      by blast
    have "?any ''duration'' = Some (Num x)" "?any ''max_depth'' = Some (Num y)"
      "?any ''dive_number'' = Some (Num z)" by simp_all
    with i(2) have "(snd (upsertDive now ?any db) ! i) ''duration'' = Some (Num x)"
      "(snd (upsertDive now ?any db) ! i) ''max_depth'' = Some (Num y)"
      "(snd (upsertDive now ?any db) ! i) ''dive_number'' = Some (Num z)" by blast+
    with i(1) show "\<exists>i a. fst (upsertDive now ?any db) = Inr \<lparr>id' = i, action = a\<rparr> \<and>
            (snd (upsertDive now ?any db) ! i) ''duration'' = Some (Num x) \<and>
            (snd (upsertDive now ?any db) ! i) ''max_depth'' = Some (Num y) \<and>
            (snd (upsertDive now ?any db) ! i) ''dive_number'' = Some (Num z)" by blast
  qed
  from 1 2 3 show ?thesis unfolding Let_def by (intro conjI)
qed

theorem upsert_rejects_missing_fields_only_witness:
  "(''duration'', v_number) \<in> set upsertDive_args \<and>
   \<not> accepts v_number (missing_duration ''duration'') \<and>
   validate upsertDive_args required_only = None \<and> key_unique [stored_dive] \<and>
   upsertDive 1000 missing_duration [stored_dive]
     = (Inl (ArgumentValidationError ''duration''), [stored_dive]) \<and>
   validate upsertDive_args
     (required_only(''duration'' \<mapsto> Num (- 1), ''max_depth'' \<mapsto> Num (- 3), ''dive_number'' \<mapsto> Num 0))
     = None \<and>
   (\<exists>i a. fst (upsertDive 1000
               (required_only(''duration'' \<mapsto> Num (- 1), ''max_depth'' \<mapsto> Num (- 3),
                  ''dive_number'' \<mapsto> Num 0)) [stored_dive])
             = Inr \<lparr>id' = i, action = a\<rparr> \<and>
          (snd (upsertDive 1000
               (required_only(''duration'' \<mapsto> Num (- 1), ''max_depth'' \<mapsto> Num (- 3),
                  ''dive_number'' \<mapsto> Num 0)) [stored_dive]) ! i) ''duration'' = Some (Num (- 1)) \<and>
          (snd (upsertDive 1000
               (required_only(''duration'' \<mapsto> Num (- 1), ''max_depth'' \<mapsto> Num (- 3),
                  ''dive_number'' \<mapsto> Num 0)) [stored_dive]) ! i) ''max_depth'' = Some (Num (- 3)) \<and>
          (snd (upsertDive 1000
               (required_only(''duration'' \<mapsto> Num (- 1), ''max_depth'' \<mapsto> Num (- 3),
                  ''dive_number'' \<mapsto> Num 0)) [stored_dive]) ! i) ''dive_number'' = Some (Num 0))"
proof -
  have 1: "(''duration'', v_number) \<in> set upsertDive_args" by (simp add: upsertDive_args_def)
  have 2: "\<not> accepts v_number (missing_duration ''duration'')" by (simp add: missing_duration_def)
  note t = upsert_rejects_missing_fields_only[where f = "''duration''" and v = v_number
      and args = missing_duration and ok = required_only
      and now = 1000 and db = "[stored_dive]" and x = "- 1" and y = "- 3" and z = 0,
      OF 1 2 required_only_valid, unfolded Let_def]
  from t obtain g where
    g: "upsertDive 1000 missing_duration [stored_dive] = (Inl (ArgumentValidationError g), [stored_dive])"
    by blast
  have "upsertDive 1000 missing_duration [stored_dive]
     = (Inl (ArgumentValidationError ''duration''), [stored_dive])"
    by (simp add: upsertDive_def missing_duration_rejected)
  with g have "g = ''duration''" by simp
  with g have 3: "upsertDive 1000 missing_duration [stored_dive]
     = (Inl (ArgumentValidationError ''duration''), [stored_dive])" by simp
  note 4 = t[THEN conjunct2, THEN conjunct1]
  note 5 = t[THEN conjunct2, THEN conjunct2, rule_format, OF key_unique_stored]
  from 1 2 required_only_valid key_unique_stored 3 4 5 show ?thesis by (intro conjI)
qed

text \<open>
  C4 as stated fails: a submission with duration \<open>-1\<close> into the empty table is
  accepted and stored.
\<close>

theorem upsert_negative_duration_counterexample:
  "fst (upsertDive 1000 negative_duration []) = Inr \<lparr>id' = 0, action = ''inserted''\<rparr> \<and>
   length (snd (upsertDive 1000 negative_duration [])) = 1 \<and>
   (snd (upsertDive 1000 negative_duration []) ! 0) ''duration'' = Some (Num (- 1))"
proof -
  have "validate upsertDive_args negative_duration = None"
    by (simp add: validate_def upsertDive_args_def negative_duration_def required_only_def)
  then show ?thesis
    by (simp add: upsertDive_def handler_def by_dive_number_def insert_doc_def negative_duration_def)
qed

text \<open>
  C5. A field that a first accepted submission supplies and a second accepted submission
  on the same key omits still has, in the one stored document of that key after the
  second call, the value the first call gave it.
\<close>

theorem omitted_fields_survive_update:
  assumes "key_unique db"
    and "validate upsertDive_args args1 = None" and "validate upsertDive_args args2 = None"
    and "args2 ''user_id'' = args1 ''user_id''" and "args2 ''dive_number'' = args1 ''dive_number''"
    and "args1 f = Some v" and "args2 f = None"
  shows "let db1 = snd (upsertDive t1 args1 db);
             db2 = snd (upsertDive t2 args2 db1)
         in \<exists>i. by_dive_number (args1 ''user_id'') (args1 ''dive_number'') db2 = [(i, db2 ! i)] \<and>
                (db1 ! i) f = Some v \<and> (db2 ! i) f = Some v"
proof -
  from valid_no_bookkeeping(2)[OF assms(2)] assms(6) have f: "f \<noteq> ''updated_at''" by auto
  from upsert_twice[OF assms(1-5), of t1 t2] obtain i where
    i: "by_dive_number (args1 ''user_id'') (args1 ''dive_number'')
                (snd (upsertDive t2 args2 (snd (upsertDive t1 args1 db))))
              = [(i, snd (upsertDive t2 args2 (snd (upsertDive t1 args1 db))) ! i)]"
       "\<forall>f. args2 f = None \<and> f \<noteq> ''updated_at'' \<longrightarrow>
              (snd (upsertDive t2 args2 (snd (upsertDive t1 args1 db))) ! i) f
                = (snd (upsertDive t1 args1 db) ! i) f"
       "\<forall>f v. args1 f = Some v \<longrightarrow> (snd (upsertDive t1 args1 db) ! i) f = Some v"
    by blast
  from i(3) assms(6) have a: "(snd (upsertDive t1 args1 db) ! i) f = Some v" by blast
  from i(2) assms(7) f have "(snd (upsertDive t2 args2 (snd (upsertDive t1 args1 db))) ! i) f
                = (snd (upsertDive t1 args1 db) ! i) f" by blast
  with a i(1) show ?thesis unfolding Let_def by (intro exI[of _ i]) simp
qed

theorem omitted_fields_survive_update_witness:
  "key_unique [] \<and> validate upsertDive_args with_notes = None \<and>
   validate upsertDive_args required_only = None \<and>
   with_notes ''notes'' = Some (Str ''first'') \<and> required_only ''notes'' = None \<and>
   (\<exists>i. by_dive_number (with_notes ''user_id'') (with_notes ''dive_number'')
            (snd (upsertDive 2000 required_only (snd (upsertDive 1000 with_notes []))))
          = [(i, snd (upsertDive 2000 required_only (snd (upsertDive 1000 with_notes []))) ! i)] \<and>
        (snd (upsertDive 1000 with_notes []) ! i) ''notes'' = Some (Str ''first'') \<and>
        (snd (upsertDive 2000 required_only (snd (upsertDive 1000 with_notes []))) ! i) ''notes''
          = Some (Str ''first''))"
proof -
  have same: "required_only ''user_id'' = with_notes ''user_id''"
    "required_only ''dive_number'' = with_notes ''dive_number''"
    by (simp_all add: with_notes_key required_only_key)
  note t = omitted_fields_survive_update[OF key_unique_empty with_notes_valid required_only_valid same
      with_notes_key(3) required_only_key(4), where ?t1.0 = 1000 and ?t2.0 = 2000, unfolded Let_def]
  from key_unique_empty with_notes_valid required_only_valid with_notes_key(3) required_only_key(4) t
  show ?thesis by (intro conjI)
qed

section \<open>Claims about the resolvers\<close>

subsection \<open>The matcher against the reading of the patterns\<close>

text \<open>
  The matcher is sound and complete for the reading \<open>shape\<close> of the patterns, and
  \<open>match\<close> returns the group of a match at the leftmost position that has one.
\<close>

lemma first_some_map_Some:
  "first_some (map f xs) = Some y \<Longrightarrow> \<exists>x \<in> set xs. f x = Some y"
  by (induction xs) (auto split: option.splits elim: first_some.elims)

lemma first_some_None_iff: "first_some xs = None \<longleftrightarrow> (\<forall>x \<in> set xs. x = None)"
  by (induction xs rule: first_some.induct) auto

lemma first_some_map_not_None:
  "x \<in> set xs \<Longrightarrow> f x \<noteq> None \<Longrightarrow> first_some (map f xs) \<noteq> None"
  by (auto simp: first_some_None_iff)

lemma first_some_map_first:
  "first_some (map f xs) = Some y \<Longrightarrow>
     \<exists>i < length xs. f (xs ! i) = Some y \<and> (\<forall>j < i. f (xs ! j) = None)"
proof (induction xs)
  case Nil
  then show ?case by simp
next
  case (Cons x xs)
  show ?case
  proof (cases "f x")
    case None
    with Cons.prems have "first_some (map f xs) = Some y" by simp
    from Cons.IH[OF this] obtain i where i: "i < length xs" "f (xs ! i) = Some y"
      "\<forall>j < i. f (xs ! j) = None" by blast
    have "\<forall>j < Suc i. f ((x # xs) ! j) = None"
    proof (intro allI impI)
      fix j assume "j < Suc i"
      with None i(3) show "f ((x # xs) ! j) = None" by (cases j) simp_all
    qed
    with i(1,2) show ?thesis by (intro exI[of _ "Suc i"]) simp
  next
    case (Some z)
    with Cons.prems have "z = y" by simp
    with Some show ?thesis by (intro exI[of _ 0]) simp
  qed
qed

lemma first_some_descending:
  "first_some (map (\<lambda>k. Some (take k s)) (rev [Suc 0 ..< Suc n])) = (if n = 0 then None else Some (take n s))"
  by (cases n) simp_all

lemma take_run:
  assumes "k \<le> length (takeWhile (\<lambda>x. x \<noteq> c) s)"
  shows "c \<notin> set (take k s)"
proof -
  have "take k s = take k (takeWhile (\<lambda>x. x \<noteq> c) s)"
    using assms by (metis takeWhile_eq_take min.absorb2 take_take min.commute)
  then have "set (take k s) \<subseteq> set (takeWhile (\<lambda>x. x \<noteq> c) s)"
    by (metis set_take_subset)
  then show ?thesis by (auto dest: set_takeWhileD)
qed

lemma run_bound:
  assumes "c \<notin> set a"
  shows "length a \<le> length (takeWhile (\<lambda>x. x \<noteq> c) (a @ r))"
proof -
  have "takeWhile (\<lambda>x. x \<noteq> c) (a @ r) = a @ takeWhile (\<lambda>x. x \<noteq> c) r"
  proof (rule takeWhile_append2)
    fix x assume "x \<in> set a"
    with assms show "x \<noteq> c" by auto
  qed
  then show ?thesis by simp
qed

lemma prefix_split: "prefix xs ys \<Longrightarrow> ys = xs @ drop (length xs) ys"
  by (auto simp: prefix_def)

lemma match_here_sound:
  "match_here items s cap0 = Some cap \<Longrightarrow> \<exists>w r. s = w @ r \<and> shape items w cap0 cap"
proof (induction items s cap0 rule: match_here.induct)
  case (1 s cap0)
  then show ?case by simp
next
  case (2 l rest s cap0)
  from "2.prems" have p: "prefix l s" and m: "match_here rest (drop (length l) s) cap0 = Some cap"
    by (simp_all split: if_splits)
  from "2.IH"[OF p m] obtain w r where wr: "drop (length l) s = w @ r" "shape rest w cap0 cap" by blast
  from p have "s = l @ drop (length l) s" by (auto simp: prefix_def)
  with wr have "s = (l @ w) @ r" "shape (Lit l # rest) (l @ w) cap0 cap" by simp_all
  then show ?case by blast
next
  case (3 c rest s cap0)
  from "3.prems" obtain k where k: "k \<in> set (rev [0 ..< Suc (length (takeWhile (\<lambda>x. x \<noteq> c) s))])"
    and m: "match_here rest (drop k s) cap0 = Some cap"
    unfolding match_here.simps by (blast dest: first_some_map_Some)
  from "3.IH"[OF k m] obtain w r where wr: "drop k s = w @ r" "shape rest w cap0 cap" by blast
  from k have "k \<le> length (takeWhile (\<lambda>x. x \<noteq> c) s)" by auto
  then have "c \<notin> set (take k s)" by (rule take_run)
  moreover have "s = (take k s @ w) @ r" using wr(1) by (metis append_take_drop_id append.assoc)
  ultimately have "s = (take k s @ w) @ r" "shape (StarNot c # rest) (take k s @ w) cap0 cap"
    using wr(2) by auto
  then show ?case by blast
next
  case (4 c rest s cap0)
  from "4.prems" obtain k where k: "k \<in> set (rev [1 ..< Suc (length (takeWhile (\<lambda>x. x \<noteq> c) s))])"
    and m: "match_here rest (drop k s) (take k s) = Some cap"
    unfolding match_here.simps by (blast dest: first_some_map_Some)
  from "4.IH"[OF k m] obtain w r where wr: "drop k s = w @ r" "shape rest w (take k s) cap" by blast
  from k have kb: "1 \<le> k" "k \<le> length (takeWhile (\<lambda>x. x \<noteq> c) s)" by auto
  then have c: "c \<notin> set (take k s)" by (intro take_run)
  have "k \<le> length s" using kb(2) length_takeWhile_le[of "\<lambda>x. x \<noteq> c" s] by linarith
  with kb(1) have ne: "take k s \<noteq> []" by auto
  have s: "s = (take k s @ w) @ r" using wr(1) by (metis append_take_drop_id append.assoc)
  from c ne wr(2) have "\<exists>a w'. take k s @ w = a @ w' \<and> a \<noteq> [] \<and> c \<notin> set a \<and> shape rest w' a cap"
    by blast
  then have "shape (PlusNot c # rest) (take k s @ w) cap0 cap" by simp
  with s show ?case by blast
qed

lemma match_here_complete:
  "shape items w cap0 cap \<Longrightarrow> match_here items (w @ r) cap0 \<noteq> None"
proof (induction items "w @ r" cap0 arbitrary: w rule: match_here.induct)
  case 1
  then show ?case by simp
next
  case (2 l rest cap0)
  from "2.prems" obtain w' where w: "w = l @ w'" "shape rest w' cap0 cap" by auto
  then have p: "prefix l (w @ r)" and d: "drop (length l) (w @ r) = w' @ r" by simp_all
  from "2.hyps"[OF p d w(2)] have "match_here rest (w' @ r) cap0 \<noteq> None" .
  with w(1) show ?case by simp
next
  case (3 c rest cap0)
  from "3.prems" obtain a w' where w: "w = a @ w'" "c \<notin> set a" "shape rest w' cap0 cap" by auto
  let ?n = "length (takeWhile (\<lambda>x. x \<noteq> c) (w @ r))"
  from w(1,2) have "length a \<le> ?n" using run_bound[of c a "w' @ r"] by simp
  then have k: "length a \<in> set (rev [0 ..< Suc ?n])" by auto
  have d: "drop (length a) (w @ r) = w' @ r" using w(1) by simp
  from "3.hyps"[OF k d w(3)] have "match_here rest (drop (length a) (w @ r)) cap0 \<noteq> None"
    using d by simp
  with k show ?case unfolding match_here.simps by (rule first_some_map_not_None)
next
  case (4 c rest cap0)
  from "4.prems" obtain a w' where w: "w = a @ w'" "a \<noteq> []" "c \<notin> set a" "shape rest w' a cap" by auto
  let ?n = "length (takeWhile (\<lambda>x. x \<noteq> c) (w @ r))"
  from w(1,3) have "length a \<le> ?n" using run_bound[of c a "w' @ r"] by simp
  moreover from w(2) have "1 \<le> length a" by (cases a) simp_all
  ultimately have k: "length a \<in> set (rev [1 ..< Suc ?n])" by auto
  have d: "drop (length a) (w @ r) = w' @ r" using w(1) by simp
  have t: "take (length a) (w @ r) = a" using w(1) by simp
  from "4.hyps"[OF k d] w(4) t have "match_here rest (drop (length a) (w @ r)) (take (length a) (w @ r)) \<noteq> None"
    using d by simp
  with k show ?case unfolding match_here.simps by (rule first_some_map_not_None)
qed

lemma match_leftmost:
  assumes "match items s = Some cap"
  shows "\<exists>i \<le> length s. matches_at items s i cap \<and> (\<forall>j < i. \<forall>c. \<not> matches_at items s j c)"
proof -
  let ?f = "\<lambda>i. match_here items (drop i s) []"
  from assms have "first_some (map ?f [0 ..< Suc (length s)]) = Some cap" by (simp only: match_def)
  from first_some_map_first[OF this] obtain i where
    i: "i < length [0 ..< Suc (length s)]" "?f ([0 ..< Suc (length s)] ! i) = Some cap"
      "\<forall>j < i. ?f ([0 ..< Suc (length s)] ! j) = None" by blast
  from i(1) have il: "i < Suc (length s)" by simp
  then have ii: "[0 ..< Suc (length s)] ! i = i" by (metis add_0 nth_upt)
  from i(2) have "match_here items (drop i s) [] = Some cap" unfolding ii .
  from match_here_sound[OF this] have a: "matches_at items s i cap" by (simp add: matches_at_def)
  have b: "\<forall>j < i. \<forall>c. \<not> matches_at items s j c"
  proof (intro allI impI notI)
    fix j c assume j: "j < i" and m: "matches_at items s j c"
    from j il have "j < Suc (length s)" by simp
    then have jj: "[0 ..< Suc (length s)] ! j = j" by (metis add_0 nth_upt)
    from i(3) j have "match_here items (drop j s) [] = None" using jj by metis
    moreover from m obtain w r where "drop j s = w @ r" "shape items w [] c"
      by (auto simp: matches_at_def)
    then have "match_here items (drop j s) [] \<noteq> None" using match_here_complete by metis
    ultimately show False by simp
  qed
  from il a b show ?thesis by (intro exI[of _ i]) simp
qed

lemma match_None_iff: "match items s = None \<longleftrightarrow> (\<forall>i \<le> length s. \<forall>c. \<not> matches_at items s i c)"
proof
  assume n: "match items s = None"
  show "\<forall>i \<le> length s. \<forall>c. \<not> matches_at items s i c"
  proof (intro allI impI notI)
    fix i c assume i: "i \<le> length s" and m: "matches_at items s i c"
    from n i have "match_here items (drop i s) [] = None"
      unfolding match_def first_some_None_iff by auto
    moreover from m obtain w r where "drop i s = w @ r" "shape items w [] c"
      by (auto simp: matches_at_def)
    then have "match_here items (drop i s) [] \<noteq> None" using match_here_complete by metis
    ultimately show False by simp
  qed
next
  assume a: "\<forall>i \<le> length s. \<forall>c. \<not> matches_at items s i c"
  show "match items s = None"
  proof (rule ccontr)
    assume "match items s \<noteq> None"
    then obtain c where "match items s = Some c" by auto
    from match_leftmost[OF this] a show False by blast
  qed
qed

lemma match_decompose:
  assumes "match items s = Some cap"
  shows "\<exists>before w after. s = before @ w @ after \<and> shape items w [] cap \<and>
           (\<forall>j < length before. \<forall>c. \<not> matches_at items s j c)"
proof -
  from match_leftmost[OF assms] obtain i where i: "i \<le> length s" "matches_at items s i cap"
    "\<forall>j < i. \<forall>c. \<not> matches_at items s j c" by blast
  from i(2) obtain w r where wr: "drop i s = w @ r" "shape items w [] cap"
    by (auto simp: matches_at_def)
  have "s = take i s @ drop i s" by simp
  with wr(1) have s: "s = take i s @ w @ r" by simp
  from i(1) have "length (take i s) = i" by simp
  with i(3) have "\<forall>j < length (take i s). \<forall>c. \<not> matches_at items s j c" by simp
  with s wr(2) show ?thesis by blast
qed

lemma shape_capture_tail:
  "shape [PlusNot c, Lit l] w cap0 cap \<longleftrightarrow> w = cap @ l \<and> cap \<noteq> [] \<and> c \<notin> set cap"
  by auto

lemma shape_Lit: "shape (Lit l # rest) w cap0 cap \<longleftrightarrow> (\<exists>w'. w = l @ w' \<and> shape rest w' cap0 cap)"
  by simp

lemma shape_StarNot:
  "shape (StarNot c # rest) w cap0 cap \<longleftrightarrow> (\<exists>a w'. w = a @ w' \<and> c \<notin> set a \<and> shape rest w' cap0 cap)"
  by simp

lemma shape_text_pattern:
  "shape [Lit l1, StarNot c1, Lit l2, PlusNot c2, Lit l3] w [] cap \<longleftrightarrow>
     (\<exists>a. w = l1 @ a @ l2 @ cap @ l3 \<and> c1 \<notin> set a \<and> cap \<noteq> [] \<and> c2 \<notin> set cap)"
proof -
  have 1: "\<And>v. shape [Lit l2, PlusNot c2, Lit l3] v [] cap \<longleftrightarrow>
      v = l2 @ cap @ l3 \<and> cap \<noteq> [] \<and> c2 \<notin> set cap"
    unfolding shape_Lit shape_capture_tail by blast
  have 2: "\<And>v. shape [StarNot c1, Lit l2, PlusNot c2, Lit l3] v [] cap \<longleftrightarrow>
      (\<exists>a. v = a @ l2 @ cap @ l3 \<and> c1 \<notin> set a \<and> cap \<noteq> [] \<and> c2 \<notin> set cap)"
    unfolding shape_StarNot 1 by blast
  show ?thesis unfolding shape_Lit[of l1] 2 by blast
qed

lemma shape_link_pattern:
  "shape [Lit l1, StarNot c1, Lit l2, StarNot c2, Lit l3, PlusNot c3, Lit l4] w [] cap \<longleftrightarrow>
     (\<exists>a b. w = l1 @ a @ l2 @ b @ l3 @ cap @ l4 \<and>
            c1 \<notin> set a \<and> c2 \<notin> set b \<and> cap \<noteq> [] \<and> c3 \<notin> set cap)"
proof -
  have 1: "\<And>v. shape [Lit l2, StarNot c2, Lit l3, PlusNot c3, Lit l4] v [] cap \<longleftrightarrow>
      (\<exists>b. v = l2 @ b @ l3 @ cap @ l4 \<and> c2 \<notin> set b \<and> cap \<noteq> [] \<and> c3 \<notin> set cap)"
    by (rule shape_text_pattern)
  have 2: "\<And>v. shape [StarNot c1, Lit l2, StarNot c2, Lit l3, PlusNot c3, Lit l4] v [] cap \<longleftrightarrow>
      (\<exists>a b. v = a @ l2 @ b @ l3 @ cap @ l4 \<and> c1 \<notin> set a \<and> c2 \<notin> set b \<and> cap \<noteq> [] \<and> c3 \<notin> set cap)"
    unfolding shape_StarNot 1 by blast
  show ?thesis unfolding shape_Lit[of l1] 2 by blast
qed

lemma shape_result_a:
  "shape result_a w [] href \<longleftrightarrow>
     (\<exists>a b. w = ''<a'' @ a @ ''class=\"result__a\"'' @ b @ ''href=\"'' @ href @ ''\"'' \<and>
            CHR ''>'' \<notin> set a \<and> CHR ''>'' \<notin> set b \<and> href \<noteq> [] \<and> CHR 0x22 \<notin> set href)"
  unfolding result_a_def by (rule shape_link_pattern)

lemma shape_result_url:
  "shape result_url w [] shown \<longleftrightarrow>
     (\<exists>a. w = ''class=\"result__url\"'' @ a @ ''>'' @ shown @ ''<'' \<and>
          CHR ''>'' \<notin> set a \<and> shown \<noteq> [] \<and> CHR ''<'' \<notin> set shown)"
  unfolding result_url_def by (rule shape_text_pattern)

lemma first_result_link:
  assumes "match result_a html = Some href"
  shows "\<exists>before a b after.
           html = before @ ''<a'' @ a @ ''class=\"result__a\"'' @ b @ ''href=\"'' @ href @ ''\"'' @ after \<and>
           CHR ''>'' \<notin> set a \<and> CHR ''>'' \<notin> set b \<and> href \<noteq> [] \<and> CHR 0x22 \<notin> set href \<and>
           (\<forall>j < length before. \<forall>c. \<not> matches_at result_a html j c)"
proof -
  from match_decompose[OF assms] obtain before w after where
    d: "html = before @ w @ after" "shape result_a w [] href"
      "\<forall>j < length before. \<forall>c. \<not> matches_at result_a html j c" by blast
  from d(2) obtain a b where
    w: "w = ''<a'' @ a @ ''class=\"result__a\"'' @ b @ ''href=\"'' @ href @ ''\"''"
      "CHR ''>'' \<notin> set a" "CHR ''>'' \<notin> set b" "href \<noteq> []" "CHR 0x22 \<notin> set href"
    unfolding shape_result_a by blast
  have "html = before @ ''<a'' @ a @ ''class=\"result__a\"'' @ b @ ''href=\"'' @ href @ ''\"'' @ after"
    unfolding d(1) w(1) by (simp only: append_assoc)
  with w(2-5) d(3) show ?thesis by blast
qed

lemma first_shown_address:
  assumes "match result_url html = Some shown"
  shows "\<exists>before a after.
           html = before @ ''class=\"result__url\"'' @ a @ ''>'' @ shown @ ''<'' @ after \<and>
           CHR ''>'' \<notin> set a \<and> shown \<noteq> [] \<and> CHR ''<'' \<notin> set shown \<and>
           (\<forall>j < length before. \<forall>c. \<not> matches_at result_url html j c)"
proof -
  from match_decompose[OF assms] obtain before w after where
    d: "html = before @ w @ after" "shape result_url w [] shown"
      "\<forall>j < length before. \<forall>c. \<not> matches_at result_url html j c" by blast
  from d(2) obtain a where
    w: "w = ''class=\"result__url\"'' @ a @ ''>'' @ shown @ ''<''"
      "CHR ''>'' \<notin> set a" "shown \<noteq> []" "CHR ''<'' \<notin> set shown"
    unfolding shape_result_url by blast
  have "html = before @ ''class=\"result__url\"'' @ a @ ''>'' @ shown @ ''<'' @ after"
    unfolding d(1) w(1) by (simp only: append_assoc)
  with w(2-4) d(3) show ?thesis by blast
qed

lemma match_here_PlusNot_last:
  "match_here [PlusNot c] s cap =
     (if takeWhile (\<lambda>x. x \<noteq> c) s = [] then None else Some (takeWhile (\<lambda>x. x \<noteq> c) s))"
proof -
  have "take (length (takeWhile (\<lambda>x. x \<noteq> c) s)) s = takeWhile (\<lambda>x. x \<noteq> c) s"
    by (metis takeWhile_eq_take)
  then show ?thesis by (simp add: first_some_descending del: upt_Suc)
qed

lemma match_here_uddg:
  "match_here uddg s cap =
     (if prefix ''uddg='' s \<and> takeWhile (\<lambda>x. x \<noteq> CHR ''&'') (drop (length ''uddg='') s) \<noteq> []
      then Some (takeWhile (\<lambda>x. x \<noteq> CHR ''&'') (drop (length ''uddg='') s)) else None)"
  unfolding uddg_def match_here.simps(2) match_here_PlusNot_last by simp

lemma match_uddg_target:
  assumes "match uddg href = Some target"
  shows "target \<noteq> [] \<and> CHR ''&'' \<notin> set target \<and>
         (\<exists>before after. href = before @ ''uddg='' @ target @ after \<and>
            (after = [] \<or> hd after = CHR ''&''))"
proof -
  from assms obtain i where i: "match_here uddg (drop i href) [] = Some target"
    unfolding match_def by (blast dest: first_some_map_Some)
  define r where "r = drop (length ''uddg='') (drop i href)"
  define after where "after = dropWhile (\<lambda>x. x \<noteq> CHR ''&'') r"
  have m: "match_here uddg (drop i href) [] =
     (if prefix ''uddg='' (drop i href) \<and> takeWhile (\<lambda>x. x \<noteq> CHR ''&'') r \<noteq> []
      then Some (takeWhile (\<lambda>x. x \<noteq> CHR ''&'') r) else None)"
    unfolding r_def by (rule match_here_uddg)
  have c: "prefix ''uddg='' (drop i href) \<and> takeWhile (\<lambda>x. x \<noteq> CHR ''&'') r \<noteq> []"
  proof (rule ccontr)
    assume "\<not> (prefix ''uddg='' (drop i href) \<and> takeWhile (\<lambda>x. x \<noteq> CHR ''&'') r \<noteq> [])"
    then have "match_here uddg (drop i href) [] = None" unfolding m by (rule if_not_P)
    with i show False by simp
  qed
  then have "match_here uddg (drop i href) [] = Some (takeWhile (\<lambda>x. x \<noteq> CHR ''&'') r)"
    unfolding m by (rule if_P)
  with i have t: "target = takeWhile (\<lambda>x. x \<noteq> CHR ''&'') r" by simp
  from c have ne: "target \<noteq> []" unfolding t by (rule conjunct2)
  from c have "prefix ''uddg='' (drop i href)" by (rule conjunct1)
  then have e1: "drop i href = ''uddg='' @ r" unfolding r_def by (rule prefix_split)
  have e2: "target @ after = r" unfolding t after_def by (rule takeWhile_dropWhile_id)
  have "href = take i href @ drop i href" by (rule append_take_drop_id[symmetric])
  then have h: "href = take i href @ ''uddg='' @ target @ after" unfolding e1 e2 .
  have a: "after = [] \<or> hd after = CHR ''&''"
    unfolding after_def using hd_dropWhile[of "\<lambda>x. x \<noteq> CHR ''&''" r] by blast
  have n: "CHR ''&'' \<notin> set target"
  proof
    assume "CHR ''&'' \<in> set target"
    then have "CHR ''&'' \<in> set (takeWhile (\<lambda>x. x \<noteq> CHR ''&'') r)" unfolding t .
    then have "CHR ''&'' \<noteq> CHR ''&''" by (rule set_takeWhileD[THEN conjunct2])
    then show False by simp
  qed
  from h a have "\<exists>before after. href = before @ ''uddg='' @ target @ after \<and>
            (after = [] \<or> hd after = CHR ''&'')" by blast
  with ne n show ?thesis by (intro conjI)
qed

lemma has_scheme_replace:
  "has_scheme (replace_leading_slashes x) \<longleftrightarrow> has_scheme x \<or> prefix ''//'' x"
proof (cases "prefix ''//'' x")
  case True
  then obtain r where "x = ''//'' @ r" by (auto simp: prefix_def)
  then show ?thesis by (simp add: replace_leading_slashes_def has_scheme_def)
next
  case False
  then show ?thesis by (simp add: replace_leading_slashes_def)
qed

lemma replace_leading_slashes_cases:
  "replace_leading_slashes (''//'' @ r) = ''https://'' @ r"
  "\<not> prefix ''//'' x \<Longrightarrow> replace_leading_slashes x = x"
  by (simp_all add: replace_leading_slashes_def)

lemma formatUrl_scheme: "u \<noteq> [] \<Longrightarrow> has_scheme (formatUrl u)"
  by (simp add: formatUrl_def has_scheme_def)

lemma sample_matches:
  "match result_a html_wrapped = Some ''//duckduckgo.com/l/?uddg=https%3A%2F%2Fblue.example&rut=9''"
  "match uddg ''//duckduckgo.com/l/?uddg=https%3A%2F%2Fblue.example&rut=9'' = Some ''https%3A%2F%2Fblue.example''"
  "match result_a html_display = None"
  "match result_url html_display = Some '' www.reef.example/dive ''"
  "trim '' www.reef.example/dive '' = ''www.reef.example/dive''"
  by code_simp+

subsection \<open>Empty club names\<close>

text \<open>
  C6, as the code has it. For an empty or all-blank club name \<open>searchClubWebsite\<close>
  returns \<open>null\<close> without calling the route, and it never throws, whatever the name and
  the route's answer. The route itself answers a missing or empty \<open>q\<close> with status 400.
\<close>

theorem empty_club_name_is_absent:
  assumes "clubName = [] \<or> trim clubName = []"
  shows "searchClubWebsite fetch clubName = Inr None \<and>
         (\<exists>r. searchClubWebsite fetch other = Inr r) \<and>
         GET decodeURIComponent page None = BadRequest \<and>
         GET decodeURIComponent page (Some []) = BadRequest"
proof -
  have "\<exists>r. searchClubWebsite fetch other = Inr r"
    by (simp add: searchClubWebsite_def split: api_response.splits api_json.splits option.splits)
  with assms show ?thesis by (auto simp: searchClubWebsite_def GET_def)
qed

theorem empty_club_name_is_absent_witness:
  "trim ''   '' = [] \<and>
   searchClubWebsite unreachable ''   '' = Inr None \<and>
   searchClubWebsite not_found ''   '' = Inr None"
proof -
  have t: "''   '' = [] \<or> trim ''   '' = []" by (simp add: trim_def is_ws_def)
  from empty_club_name_is_absent[OF t, of unreachable] empty_club_name_is_absent[OF t, of not_found] t
  show ?thesis by simp
qed

text \<open>
  C6 as stated fails: the empty and the all-blank name give \<open>null\<close>, the very
  result of a name for which the route finds nothing, and no error.
\<close>

theorem empty_club_name_counterexample:
  "searchClubWebsite unreachable [] = Inr None \<and>
   searchClubWebsite unreachable ''   '' = Inr None \<and>
   searchClubWebsite not_found ''Obscure Divers'' = Inr None"
  by (simp add: searchClubWebsite_def trim_def is_ws_def not_found_def as_api_response_def)

subsection \<open>Short queries and coordinates without a match\<close>

lemma not_configured:
  "searchLocation None fetch query = Inl (Error ''Geoapify API key not configured'')"
  "searchLocation (Some []) fetch query = Inl (Error ''Geoapify API key not configured'')"
  "reverseGeocode None fetch' x y = Inl (Error ''Geoapify API key not configured'')"
  "reverseGeocode (Some []) fetch' x y = Inl (Error ''Geoapify API key not configured'')"
  by (simp_all add: searchLocation_def reverseGeocode_def)

text \<open>
  C7, as the code has it. With an API key configured, a query that is empty or whose
  trimmed length is below 2 gives the empty sequence of candidates, whatever the
  provider would answer (it is not asked). Without a key (unset or empty) the call
  throws the configuration error, for every query.
\<close>

theorem short_query_no_candidates:
  assumes "query = [] \<or> length (trim query) < 2"
  shows "(key \<noteq> [] \<longrightarrow> searchLocation (Some key) fetch query = Inr []) \<and>
         searchLocation None fetch query = Inl (Error ''Geoapify API key not configured'') \<and>
         searchLocation (Some []) fetch query = Inl (Error ''Geoapify API key not configured'')"
  using assms by (auto simp: searchLocation_def)

theorem short_query_no_candidates_witness:
  "length (trim ''a'') < 2 \<and> ''k1'' \<noteq> [] \<and>
   searchLocation (Some ''k1'') no_coverage ''a'' = Inr [] \<and>
   searchLocation (Some ''k1'') no_coverage '' a  '' = Inr [] \<and>
   searchLocation (Some ''k1'') no_coverage [] = Inr []"
proof -
  have 1: "''a'' = [] \<or> length (trim ''a'') < 2" by (simp add: trim_def is_ws_def)
  have 2: "'' a  '' = [] \<or> length (trim '' a  '') < 2" by (simp add: trim_def is_ws_def)
  have 3: "([] :: string) = [] \<or> length (trim []) < 2" by simp
  have k: "''k1'' \<noteq> []" by simp
  from short_query_no_candidates[OF 1, of "''k1''" no_coverage, THEN conjunct1, rule_format, OF k]
       short_query_no_candidates[OF 2, of "''k1''" no_coverage, THEN conjunct1, rule_format, OF k]
       short_query_no_candidates[OF 3, of "''k1''" no_coverage, THEN conjunct1, rule_format, OF k]
  show ?thesis by (simp add: trim_def is_ws_def)
qed

text \<open>
  C7 as stated fails: without an API key the one-character query \<open>a\<close> raises an error.
\<close>

theorem short_query_without_key_counterexample:
  "length (trim ''a'') < 2 \<and>
   searchLocation None no_coverage ''a'' = Inl (Error ''Geoapify API key not configured'')"
  by (simp add: searchLocation_def trim_def is_ws_def)

lemma reverse_error_cases:
  assumes "reverseGeocode (Some key) fetch x y = Inl e" and "key \<noteq> []"
  shows "transport_or_provider_failure (fetch (Reverse x y key))"
proof (cases "fetch (Reverse x y key)")
  case FetchRejected
  then show ?thesis by (simp add: transport_or_provider_failure_def)
next
  case (Response ok st body)
  show ?thesis
  proof (cases ok)
    case False
    with Response show ?thesis by (simp add: transport_or_provider_failure_def)
  next
    case True
    show ?thesis
    proof (cases body)
      case JsonRejected
      with Response show ?thesis by (simp add: transport_or_provider_failure_def)
    next
      case (JsonData features)
      with assms Response True show ?thesis
        by (auto simp: reverseGeocode_def transport_or_provider_failure_def to_result_def
            split: option.splits list.splits)
    qed
  qed
qed

text \<open>
  C8, as the code has it. With an API key configured, a successful answer with no
  feature (the field missing or the array empty) gives \<open>null\<close>, and an error is
  raised only on a transport or provider failure. Without a key the call throws the
  configuration error before any request.
\<close>

theorem reverse_no_match_is_absent:
  assumes "key \<noteq> []"
  shows "(fetch (Reverse x y key) = Response True statusText (JsonData None) \<or>
          fetch (Reverse x y key) = Response True statusText (JsonData (Some []))
            \<longrightarrow> reverseGeocode (Some key) fetch x y = Inr None) \<and>
         (reverseGeocode (Some key) fetch x y = Inl e
            \<longrightarrow> transport_or_provider_failure (fetch (Reverse x y key))) \<and>
         reverseGeocode None fetch x y = Inl (Error ''Geoapify API key not configured'') \<and>
         reverseGeocode (Some []) fetch x y = Inl (Error ''Geoapify API key not configured'')"
proof (intro conjI impI)
  assume "fetch (Reverse x y key) = Response True statusText (JsonData None) \<or>
          fetch (Reverse x y key) = Response True statusText (JsonData (Some []))"
  with assms show "reverseGeocode (Some key) fetch x y = Inr None"
    by (auto simp: reverseGeocode_def)
next
  assume "reverseGeocode (Some key) fetch x y = Inl e"
  then show "transport_or_provider_failure (fetch (Reverse x y key))"
    using assms by (rule reverse_error_cases)
qed (simp_all add: not_configured)

theorem reverse_no_match_is_absent_witness:
  "''k1'' \<noteq> [] \<and>
   no_coverage (Reverse (1 / 10000) (1 / 10000) ''k1'') = Response True ''OK'' (JsonData (Some [])) \<and>
   reverseGeocode (Some ''k1'') no_coverage (1 / 10000) (1 / 10000) = Inr None \<and>
   reverseGeocode (Some ''k1'') provider_down 0 0
     = Inl (Error ''Reverse geocoding API error: Service Unavailable'') \<and>
   transport_or_provider_failure (provider_down (Reverse 0 0 ''k1''))"
proof -
  have k: "''k1'' \<noteq> []" by simp
  have r: "no_coverage (Reverse (1 / 10000) (1 / 10000) ''k1'') = Response True ''OK'' (JsonData (Some []))"
    by (simp add: no_coverage_def)
  have e: "reverseGeocode (Some ''k1'') provider_down 0 0
     = Inl (Error ''Reverse geocoding API error: Service Unavailable'')"
    by (simp add: reverseGeocode_def provider_down_def)
  note a = reverse_no_match_is_absent[OF k, where fetch = no_coverage and x = "1 / 10000"
      and y = "1 / 10000" and statusText = "''OK''", THEN conjunct1, rule_format, OF disjI2, OF r]
  note b = reverse_no_match_is_absent[OF k, where fetch = provider_down and x = 0 and y = 0,
      THEN conjunct2, THEN conjunct1, rule_format, OF e]
  from k r a e b show ?thesis by (intro conjI)
qed

text \<open>
  C8 as stated fails: without an API key the lookup raises an error although the
  provider would answer every request successfully with no match.
\<close>

theorem reverse_without_key_counterexample:
  "reverseGeocode None no_coverage (1 / 10000) (1 / 10000)
     = Inl (Error ''Geoapify API key not configured'') \<and>
   (\<forall>request. \<not> transport_or_provider_failure (no_coverage request))"
  by (simp add: reverseGeocode_def no_coverage_def transport_or_provider_failure_def)

subsection \<open>The link the route returns\<close>

text \<open>
  What the route answers on a page that the provider returned successfully. When the
  page has a first result link: a link with a \<open>uddg\<close> parameter is replaced by the
  decoded value of that parameter (the characters after \<open>uddg=\<close> up to the next
  \<open>&\<close>), a leading \<open>//\<close> of the link is replaced by \<open>https://\<close>, and nothing else
  is done to the link. When the page only has a displayed address, the trimmed text gets
  \<open>https://\<close> in front exactly when it does not begin with the four letters
  \<open>http\<close>.
\<close>

lemma GET_link_cases:
  assumes "q \<noteq> []" and "fetch q = Page True status html"
  shows "(match result_a html = Some href \<and> match uddg href = Some target \<and>
            decodeURIComponent target = Some u
            \<longrightarrow> GET decodeURIComponent fetch (Some q) = Found (replace_leading_slashes u) q) \<and>
         (match result_a html = Some href
            \<longrightarrow> (\<exists>before a b after.
                   html = before @ ''<a'' @ a @ ''class=\"result__a\"'' @ b @ ''href=\"'' @ href @ ''\"'' @ after \<and>
                   CHR ''>'' \<notin> set a \<and> CHR ''>'' \<notin> set b \<and> href \<noteq> [] \<and> CHR 0x22 \<notin> set href \<and>
                   (\<forall>j < length before. \<forall>c. \<not> matches_at result_a html j c))) \<and>
         (match uddg href = Some target
            \<longrightarrow> target \<noteq> [] \<and> CHR ''&'' \<notin> set target \<and>
                (\<exists>before after. href = before @ ''uddg='' @ target @ after \<and>
                   (after = [] \<or> hd after = CHR ''&''))) \<and>
         (match result_a html = Some href \<and> match uddg href = None
            \<longrightarrow> GET decodeURIComponent fetch (Some q) = Found (replace_leading_slashes href) q) \<and>
         replace_leading_slashes (''//'' @ r) = ''https://'' @ r \<and>
         (\<not> prefix ''//'' x \<longrightarrow> replace_leading_slashes x = x) \<and>
         (has_scheme (replace_leading_slashes x) \<longleftrightarrow> has_scheme x \<or> prefix ''//'' x) \<and>
         (match result_a html = None
            \<longleftrightarrow> (\<forall>i \<le> length html. \<forall>c. \<not> matches_at result_a html i c)) \<and>
         (match result_url html = Some shown
            \<longrightarrow> (\<exists>before a after.
                   html = before @ ''class=\"result__url\"'' @ a @ ''>'' @ shown @ ''<'' @ after \<and>
                   CHR ''>'' \<notin> set a \<and> shown \<noteq> [] \<and> CHR ''<'' \<notin> set shown \<and>
                   (\<forall>j < length before. \<forall>c. \<not> matches_at result_url html j c))) \<and>
         (match result_a html = None \<and> match result_url html = Some shown \<and>
            \<not> prefix ''http'' (trim shown)
            \<longrightarrow> GET decodeURIComponent fetch (Some q) = Found (''https://'' @ trim shown) q) \<and>
         (match result_a html = None \<and> match result_url html = Some shown \<and>
            prefix ''http'' (trim shown)
            \<longrightarrow> GET decodeURIComponent fetch (Some q) = Found (trim shown) q)"
proof -
  have 1: "match result_a html = Some href \<and> match uddg href = Some target \<and>
            decodeURIComponent target = Some u
            \<longrightarrow> GET decodeURIComponent fetch (Some q) = Found (replace_leading_slashes u) q"
    using assms by (simp add: GET_def)
  have 2: "match result_a html = Some href
            \<longrightarrow> (\<exists>before a b after.
                   html = before @ ''<a'' @ a @ ''class=\"result__a\"'' @ b @ ''href=\"'' @ href @ ''\"'' @ after \<and>
                   CHR ''>'' \<notin> set a \<and> CHR ''>'' \<notin> set b \<and> href \<noteq> [] \<and> CHR 0x22 \<notin> set href \<and>
                   (\<forall>j < length before. \<forall>c. \<not> matches_at result_a html j c))"
    by (rule impI, rule first_result_link)
  have 3: "match uddg href = Some target
            \<longrightarrow> target \<noteq> [] \<and> CHR ''&'' \<notin> set target \<and>
                (\<exists>before after. href = before @ ''uddg='' @ target @ after \<and>
                   (after = [] \<or> hd after = CHR ''&''))"
    by (rule impI, rule match_uddg_target)
  have 4: "match result_a html = Some href \<and> match uddg href = None
            \<longrightarrow> GET decodeURIComponent fetch (Some q) = Found (replace_leading_slashes href) q"
    using assms by (simp add: GET_def)
  have 5: "replace_leading_slashes (''//'' @ r) = ''https://'' @ r"
    by (rule replace_leading_slashes_cases)
  have 6: "\<not> prefix ''//'' x \<longrightarrow> replace_leading_slashes x = x"
    by (rule impI, rule replace_leading_slashes_cases)
  have 7: "has_scheme (replace_leading_slashes x) \<longleftrightarrow> has_scheme x \<or> prefix ''//'' x"
    by (rule has_scheme_replace)
  have 8: "match result_a html = None
            \<longleftrightarrow> (\<forall>i \<le> length html. \<forall>c. \<not> matches_at result_a html i c)"
    by (rule match_None_iff)
  have 9: "match result_url html = Some shown
            \<longrightarrow> (\<exists>before a after.
                   html = before @ ''class=\"result__url\"'' @ a @ ''>'' @ shown @ ''<'' @ after \<and>
                   CHR ''>'' \<notin> set a \<and> shown \<noteq> [] \<and> CHR ''<'' \<notin> set shown \<and>
                   (\<forall>j < length before. \<forall>c. \<not> matches_at result_url html j c))"
    by (rule impI, rule first_shown_address)
  have 10: "match result_a html = None \<and> match result_url html = Some shown \<and>
            \<not> prefix ''http'' (trim shown)
            \<longrightarrow> GET decodeURIComponent fetch (Some q) = Found (''https://'' @ trim shown) q"
    using assms by (simp add: GET_def)
  have 11: "match result_a html = None \<and> match result_url html = Some shown \<and>
            prefix ''http'' (trim shown)
            \<longrightarrow> GET decodeURIComponent fetch (Some q) = Found (trim shown) q"
    using assms by (simp add: GET_def)
  from 1 2 3 4 5 6 7 8 9 10 11 show ?thesis by (intro conjI)
qed

lemma GET_link_samples:
  "GET decode_sample (page_of html_wrapped) (Some ''Blue'') = Found ''https://blue.example'' ''Blue''"
  "GET no_decoding (page_of html_display) (Some ''Reef'') = Found ''https://www.reef.example/dive'' ''Reef''"
  by code_simp+

text \<open>
  \<open>formatUrl\<close> of \<open>lib/search.ts\<close>, which has no caller, tests for the scheme with
  its separator, and so gives a scheme to a domain that begins with \<open>http\<close>.
\<close>

lemma formatUrl_sample: "formatUrl ''httpbin.org'' = ''https://httpbin.org''"
  by code_simp

text \<open>
  C9. The claim is that the first link of the search result is returned as a
  fully-qualified URL, a bare domain being prefixed with \<open>https\<close>. The route does not
  do so on a page without a first result link whose displayed address is
  \<open>httpbin.org\<close>: the test \<open>startsWith('http')\<close> of the fallback holds for this bare
  domain, the route answers with \<open>httpbin.org\<close> as it stands, and the client function
  returns it as the website of the club.
\<close>

theorem club_link_displayed_address_without_scheme:
  "match result_a html_display_http = None \<and>
   match result_url html_display_http = Some '' httpbin.org '' \<and>
   GET no_decoding (page_of html_display_http) (Some ''Club'') = Found ''httpbin.org'' ''Club'' \<and>
   resolve no_decoding (page_of html_display_http) ''Club''
     = Inr (Some \<lparr>url = ''httpbin.org'', title = ''Club''\<rparr>) \<and>
   \<not> has_scheme ''httpbin.org''"
  by code_simp

section \<open>Claims about the statistics\<close>

subsection \<open>Doubles\<close>

lemma expo_bounds: "0 < x \<Longrightarrow> 2 powi expo x \<le> x \<and> x < 2 powi (expo x + 1)"
proof (induction x rule: expo.induct)
  case (1 x)
  show ?case
  proof (cases "2 \<le> x")
    case True
    then have e: "expo x = expo (x / 2) + 1" using 1(3) by (subst expo.simps) simp
    from 1(1)[OF _ True] 1(3) have "2 powi expo (x / 2) \<le> x / 2 \<and> x / 2 < 2 powi (expo (x / 2) + 1)" by simp
    then show ?thesis unfolding e by (simp add: power_int_add)
  next
    case False
    show ?thesis
    proof (cases "x < 1")
      case True
      then have e: "expo x = expo (2 * x) - 1" using 1(3) False by (subst expo.simps) simp
      from 1(2)[OF _ False True] 1(3) have "2 powi expo (2 * x) \<le> 2 * x \<and> 2 * x < 2 powi (expo (2 * x) + 1)" by simp
      then show ?thesis unfolding e by (simp add: power_int_add power_int_diff)
    next
      case b: False
      then have "expo x = 0" using False 1(3) by (subst expo.simps) simp
      then show ?thesis using False b by simp
    qed
  qed
qed

text \<open>
  The rounded value is within half a unit of the last place of the exact one, and the
  operations at some known sums.
\<close>

lemma round_half_even_nearest: "\<bar>q - of_int (round_half_even q)\<bar> \<le> 1 / 2"
  unfolding round_half_even_def Let_def by (simp; linarith)

lemma round_double_nearest:
  assumes "round_double x = Finite r"
  shows "\<bar>x - r\<bar> \<le> 2 powi max (expo \<bar>x\<bar> - 52) (- 1074) / 2"
proof (cases "x = 0")
  case True
  with assms show ?thesis by (simp add: round_double_def)
next
  case False
  define u where "u = (2::real) powi max (expo \<bar>x\<bar> - 52) (- 1074)"
  have u: "0 < u" by (simp add: u_def)
  from assms False have r: "r = of_int (round_half_even (x / u)) * u"
    by (simp add: round_double_def Let_def u_def split: if_splits)
  have "x - r = (x / u - of_int (round_half_even (x / u))) * u"
    using u by (simp add: r field_simps)
  then have "\<bar>x - r\<bar> = \<bar>x / u - of_int (round_half_even (x / u))\<bar> * u"
    using u by (simp add: abs_mult)
  also have "\<dots> \<le> (1 / 2) * u"
    using round_half_even_nearest[of "x / u"] u by (intro mult_right_mono) simp_all
  finally show ?thesis by (simp add: u_def)
qed

lemma Number_add_samples:
  "Number_add (Finite 0.1) (Finite 0.2) = Finite (5404319552844595 / 2 ^ 54)"
  "Number_add (Finite 9007199254740992) (Finite 1) = Finite 9007199254740992"
  "Number_add (Finite 9007199254740992) (Finite 3) = Finite 9007199254740996"
  "Number_add (Finite (- 1)) (Finite 1) = Finite 0"
  "Number_add NegZero NegZero = NegZero"
  "Math_max [NegZero, Finite 0] = Finite 0"
  "Math_max [] = NegInfinity"
  by code_simp+

lemma round_half_even_of_int: "round_half_even (of_int m) = m"
  by (simp add: round_half_even_def)

lemma representable_nat:
  assumes "real n \<le> 2 ^ 53"
  shows "representable (real n)"
proof (cases "n = 0")
  case True
  then show ?thesis by (simp add: representable_def round_double_def)
next
  case False
  define x where "x = real n"
  define e where "e = expo x"
  from False have x1: "1 \<le> x" by (simp add: x_def)
  then have x0: "0 < x" by simp
  from expo_bounds[OF x0] have b: "2 powi e \<le> x" "x < 2 powi (e + 1)" by (simp_all add: e_def)
  have e0: "0 \<le> e"
  proof (rule ccontr)
    assume "\<not> 0 \<le> e"
    then have "e + 1 \<le> 0" by simp
    then have "(2::real) powi (e + 1) \<le> 2 powi 0" by (intro power_int_increasing) simp_all
    with b(2) x1 show False by simp
  qed
  from b(1) assms have "(2::real) powi e \<le> 2 powi 53" by (simp add: x_def)
  then have e53: "e \<le> 53" by (rule power_int_le_imp_le_exp[rotated]) simp_all
  have m: "\<exists>m::int. x = of_int m * 2 powi (e - 52)"
  proof (cases "e \<le> 52")
    case True
    define j where "j = nat (52 - e)"
    have "e - 52 = - int j" using True by (simp add: j_def)
    then have "(2::real) powi (e - 52) = inverse (2 ^ j)" by (simp add: power_int_minus)
    then have "x = of_int (int n * 2 ^ j) * 2 powi (e - 52)" by (simp add: x_def)
    then show ?thesis ..
  next
    case False
    with e53 have e: "e = 53" by simp
    with b(1) assms have "x = 2 ^ 53" by (simp add: x_def)
    then have "x = of_int (2 ^ 52) * 2 powi (e - 52)" by (simp add: e)
    then show ?thesis ..
  qed
  then obtain m :: int where m: "x = of_int m * 2 powi (e - 52)" ..
  have p: "(2::real) powi (e - 52) \<noteq> 0" by simp
  from m have q: "x / 2 powi (e - 52) = of_int m" by (simp add: p)
  have mx: "max (e - 52) (- 1074) = e - 52" using e0 by simp
  have big: "\<not> (2::real) ^ 1024 \<le> \<bar>x\<bar>"
  proof -
    have "(2::real) ^ 53 < 2 ^ 1024" by (rule power_strict_increasing) simp_all
    with assms x0 show ?thesis by (simp add: x_def)
  qed
  have "round_double x = Finite x"
    unfolding round_double_def Let_def
    using x0 big by (simp add: e_def[symmetric] mx q round_half_even_of_int m[symmetric])
  then show ?thesis by (simp add: representable_def x_def)
qed

subsection \<open>The sum of the durations\<close>

lemma Number_add_NaN_right: "Number_add x NaN = NaN"
  by (cases x) simp_all

lemma foldl_add_NaN: "foldl Number_add NaN xs = NaN"
  by (induction xs) simp_all

lemma foldl_add_has_NaN: "NaN \<in> set xs \<Longrightarrow> foldl Number_add a xs = NaN"
  by (induction xs arbitrary: a) (auto simp: Number_add_NaN_right foldl_add_NaN)

lemma foldl_add_exact:
  assumes "\<forall>x\<in>set xs. finite_number x"
    and "\<forall>k\<le>length xs. representable (a + sum_list (map Number_value (take k xs)))"
  shows "foldl Number_add (Finite a) xs = Finite (a + sum_list (map Number_value xs))"
  using assms
proof (induction xs arbitrary: a)
  case Nil
  show ?case by simp
next
  case (Cons x xs)
  from Cons.prems(2)[rule_format, of "Suc 0"] have r: "representable (a + Number_value x)" by simp
  from Cons.prems(1) have f: "finite_number x" by simp
  have s: "Number_add (Finite a) x = Finite (a + Number_value x)"
  proof (cases x)
    case (Finite v)
    with r show ?thesis by (simp add: representable_def)
  qed (use f in simp_all)
  have p: "\<forall>k\<le>length xs. representable ((a + Number_value x) + sum_list (map Number_value (take k xs)))"
  proof (intro allI impI)
    fix k assume "k \<le> length xs"
    with Cons.prems(2)[rule_format, of "Suc k"]
    show "representable ((a + Number_value x) + sum_list (map Number_value (take k xs)))"
      by (simp add: add.assoc)
  qed
  from Cons.prems(1) have "\<forall>y\<in>set xs. finite_number y" by simp
  from Cons.IH[OF this p] s show ?case by (simp add: add.assoc)
qed

lemma whole_partial_sums:
  assumes "\<forall>x\<in>set xs. \<exists>n::nat. x = Finite (real n)"
  shows "\<exists>m::nat. sum_list (map Number_value (take k xs)) = real m \<and>
           real m \<le> sum_list (map Number_value xs)"
  using assms
proof (induction xs arbitrary: k)
  case Nil
  show ?case by simp
next
  case (Cons x xs)
  from Cons.prems obtain n :: nat where n: "x = Finite (real n)" by auto
  from Cons.prems have r: "\<forall>y\<in>set xs. \<exists>n::nat. y = Finite (real n)" by simp
  show ?case
  proof (cases k)
    case 0
    from Cons.IH[OF r, of 0] have "0 \<le> sum_list (map Number_value xs)" by auto
    then have "sum_list (map Number_value (take k (x # xs))) = real 0 \<and>
        real 0 \<le> sum_list (map Number_value (x # xs))" by (simp add: 0 n)
    then show ?thesis ..
  next
    case (Suc j)
    from Cons.IH[OF r, of j] obtain m :: nat where
      m: "sum_list (map Number_value (take j xs)) = real m" "real m \<le> sum_list (map Number_value xs)"
      by auto
    then have "sum_list (map Number_value (take k (x # xs))) = real (n + m) \<and>
        real (n + m) \<le> sum_list (map Number_value (x # xs))" by (simp add: Suc n)
    then show ?thesis ..
  qed
qed

lemma foldl_add_whole:
  assumes "\<forall>x\<in>set xs. \<exists>n::nat. x = Finite (real n)"
    and "sum_list (map Number_value xs) \<le> 2 ^ 53"
  shows "foldl Number_add (Finite 0) xs = Finite (sum_list (map Number_value xs))"
proof -
  from assms(1) have f: "\<forall>x\<in>set xs. finite_number x" by auto
  have "\<forall>k\<le>length xs. representable (0 + sum_list (map Number_value (take k xs)))"
  proof (intro allI impI)
    fix k
    from whole_partial_sums[OF assms(1), of k] obtain m :: nat where
      m: "sum_list (map Number_value (take k xs)) = real m" "real m \<le> sum_list (map Number_value xs)"
      by auto
    from m(2) assms(2) have "real m \<le> 2 ^ 53" by simp
    then have "representable (real m)" by (rule representable_nat)
    then show "representable (0 + sum_list (map Number_value (take k xs)))" by (simp add: m(1))
  qed
  from foldl_add_exact[OF f this] show ?thesis by simp
qed

subsection \<open>The maximum of the depths\<close>

lemma max_from_has_NaN: "NaN \<in> set xs \<Longrightarrow> max_from h xs = NaN"
  by (induction xs arbitrary: h) auto

lemma max_from_mem: "NaN \<notin> set xs \<Longrightarrow> max_from h xs \<in> insert h (set xs)"
proof (induction xs arbitrary: h)
  case Nil
  show ?case by simp
next
  case (Cons x xs)
  from Cons.prems have n: "NaN \<notin> set xs" "x \<noteq> NaN" by auto
  define h' where "h' = (if x = Finite 0 \<and> h = NegZero then Finite 0
      else if Number_lessThan h x then x else h)"
  have "h' = x \<or> h' = h" by (auto simp: h'_def)
  moreover have "max_from h (x # xs) = max_from h' xs" using n(2) by (simp add: h'_def)
  moreover from Cons.IH[OF n(1), of h'] have "max_from h' xs \<in> insert h' (set xs)" .
  ultimately show ?case by auto
qed

lemma not_lessThan_trans:
  "x \<noteq> NaN \<Longrightarrow> y \<noteq> NaN \<Longrightarrow> z \<noteq> NaN \<Longrightarrow>
   \<not> Number_lessThan x y \<Longrightarrow> \<not> Number_lessThan y z \<Longrightarrow> \<not> Number_lessThan x z"
  by (cases x; cases y; cases z) simp_all

lemma not_lessThan_refl: "\<not> Number_lessThan x x"
  by (cases x) simp_all

lemma max_from_upper:
  "NaN \<notin> set xs \<Longrightarrow> h \<noteq> NaN \<Longrightarrow>
   max_from h xs \<noteq> NaN \<and> \<not> Number_lessThan (max_from h xs) h \<and>
   (\<forall>x\<in>set xs. \<not> Number_lessThan (max_from h xs) x)"
proof (induction xs arbitrary: h)
  case Nil
  then show ?case by (simp add: not_lessThan_refl)
next
  case (Cons x xs)
  from Cons.prems have n: "NaN \<notin> set xs" "x \<noteq> NaN" "h \<noteq> NaN" by auto
  define h' where "h' = (if x = Finite 0 \<and> h = NegZero then Finite 0
      else if Number_lessThan h x then x else h)"
  have h': "h' \<noteq> NaN" using n by (auto simp: h'_def)
  have s: "\<not> Number_lessThan h' h" "\<not> Number_lessThan h' x"
    using n by (cases h; cases x; auto simp: h'_def)+
  have e: "max_from h (x # xs) = max_from h' xs" using n(2) by (simp add: h'_def)
  from Cons.IH[OF n(1) h'] have i: "max_from h' xs \<noteq> NaN" "\<not> Number_lessThan (max_from h' xs) h'"
    "\<forall>y\<in>set xs. \<not> Number_lessThan (max_from h' xs) y" by simp_all
  from not_lessThan_trans[OF i(1) h' n(3) i(2) s(1)]
  have 1: "\<not> Number_lessThan (max_from h' xs) h" .
  from not_lessThan_trans[OF i(1) h' n(2) i(2) s(2)]
  have 2: "\<not> Number_lessThan (max_from h' xs) x" .
  from i 1 2 show ?case unfolding e by simp
qed

lemma Math_max_is_maximum:
  assumes "xs \<noteq> []" and "NaN \<notin> set xs"
  shows "Math_max xs \<in> set xs \<and> (\<forall>x\<in>set xs. \<not> Number_lessThan (Math_max xs) x)"
proof -
  from max_from_upper[OF assms(2), of NegInfinity]
  have u: "\<forall>x\<in>set xs. \<not> Number_lessThan (Math_max xs) x" by (simp add: Math_max_def)
  from max_from_mem[OF assms(2), of NegInfinity]
  have "Math_max xs \<in> insert NegInfinity (set xs)" by (simp add: Math_max_def)
  moreover have "Math_max xs = NegInfinity \<Longrightarrow> NegInfinity \<in> set xs"
  proof -
    assume m: "Math_max xs = NegInfinity"
    from assms(1) obtain y where y: "y \<in> set xs" by (cases xs) auto
    with assms(2) have "y \<noteq> NaN" by auto
    moreover from u y m have "\<not> Number_lessThan NegInfinity y" by simp
    ultimately have "y = NegInfinity" by (cases y) simp_all
    with y show ?thesis by simp
  qed
  ultimately have "Math_max xs \<in> set xs" by auto
  then show ?thesis using u by (rule conjI)
qed

subsection \<open>The totals\<close>

text \<open>
  C10, as the code has it. For every owner, \<open>totalDives\<close> is the number of the owner's
  documents, and with no document the result is 0, 0 and 0. \<open>totalTime\<close> is the
  durations added in order in double arithmetic: it is their sum when the durations are
  non-negative whole numbers with a sum of at most \<open>2 ^ 53\<close>, and more generally when
  every duration is finite and the sum of every first part of them is a double; it is
  \<open>NaN\<close> when a duration is \<open>NaN\<close>. \<open>maxDepth\<close> is the maximum of the
  \<open>maxDepth\<close> values, that is, one of them that none exceeds, when none of them is
  \<open>NaN\<close>, and \<open>NaN\<close> otherwise.
\<close>

theorem getDiveStats_totals:
  "let ds = filter (\<lambda>d. userId d = u) db; s = getDiveStats u db in
     totalDives s = length ds \<and>
     (ds = [] \<longrightarrow> s = \<lparr>totalDives = 0, maxDepth = Finite 0, totalTime = Finite 0\<rparr>) \<and>
     ((\<forall>d\<in>set ds. \<exists>n::nat. duration d = Finite (real n)) \<and>
      sum_list (map (\<lambda>d. Number_value (duration d)) ds) \<le> 2 ^ 53
        \<longrightarrow> totalTime s = Finite (sum_list (map (\<lambda>d. Number_value (duration d)) ds))) \<and>
     ((\<forall>d\<in>set ds. finite_number (duration d)) \<and>
      (\<forall>k\<le>length ds. representable (sum_list (map (\<lambda>d. Number_value (duration d)) (take k ds))))
        \<longrightarrow> totalTime s = Finite (sum_list (map (\<lambda>d. Number_value (duration d)) ds))) \<and>
     ((\<exists>d\<in>set ds. duration d = NaN) \<longrightarrow> totalTime s = NaN) \<and>
     (ds \<noteq> [] \<and> (\<forall>d\<in>set ds. dive.maxDepth d \<noteq> NaN)
        \<longrightarrow> (\<exists>d\<in>set ds. dive_stats.maxDepth s = dive.maxDepth d) \<and>
            (\<forall>d\<in>set ds. \<not> Number_lessThan (dive_stats.maxDepth s) (dive.maxDepth d))) \<and>
     ((\<exists>d\<in>set ds. dive.maxDepth d = NaN) \<longrightarrow> dive_stats.maxDepth s = NaN)"
proof -
  define ds where "ds = filter (\<lambda>d. userId d = u) db"
  define s where "s = getDiveStats u db"
  have t: "totalTime s = foldl Number_add (Finite 0) (map duration ds)"
    by (simp add: s_def ds_def getDiveStats_def by_userId_def Let_def foldl_map)
  have m: "ds \<noteq> [] \<Longrightarrow> dive_stats.maxDepth s = Math_max (map dive.maxDepth ds)"
    by (simp add: s_def ds_def getDiveStats_def by_userId_def Let_def)
  have v: "map Number_value (map duration ds) = map (\<lambda>d. Number_value (duration d)) ds"
    by simp
  have 1: "totalDives s = length ds"
    by (simp add: s_def ds_def getDiveStats_def by_userId_def Let_def)
  have 2: "ds = [] \<longrightarrow> s = \<lparr>totalDives = 0, maxDepth = Finite 0, totalTime = Finite 0\<rparr>"
    by (simp add: s_def ds_def getDiveStats_def by_userId_def Let_def)
  have 3: "(\<forall>d\<in>set ds. \<exists>n::nat. duration d = Finite (real n)) \<and>
      sum_list (map (\<lambda>d. Number_value (duration d)) ds) \<le> 2 ^ 53
        \<longrightarrow> totalTime s = Finite (sum_list (map (\<lambda>d. Number_value (duration d)) ds))"
  proof
    assume a: "(\<forall>d\<in>set ds. \<exists>n::nat. duration d = Finite (real n)) \<and>
      sum_list (map (\<lambda>d. Number_value (duration d)) ds) \<le> 2 ^ 53"
    then have "\<forall>x\<in>set (map duration ds). \<exists>n::nat. x = Finite (real n)" by simp
    moreover from a have "sum_list (map Number_value (map duration ds)) \<le> 2 ^ 53"
      unfolding v by simp
    ultimately have "foldl Number_add (Finite 0) (map duration ds)
        = Finite (sum_list (map Number_value (map duration ds)))" by (rule foldl_add_whole)
    then show "totalTime s = Finite (sum_list (map (\<lambda>d. Number_value (duration d)) ds))"
      unfolding t v .
  qed
  have 4: "(\<forall>d\<in>set ds. finite_number (duration d)) \<and>
      (\<forall>k\<le>length ds. representable (sum_list (map (\<lambda>d. Number_value (duration d)) (take k ds))))
        \<longrightarrow> totalTime s = Finite (sum_list (map (\<lambda>d. Number_value (duration d)) ds))"
  proof
    assume a: "(\<forall>d\<in>set ds. finite_number (duration d)) \<and>
      (\<forall>k\<le>length ds. representable (sum_list (map (\<lambda>d. Number_value (duration d)) (take k ds))))"
    then have f: "\<forall>x\<in>set (map duration ds). finite_number x" by simp
    from a have "\<forall>k\<le>length (map duration ds).
        representable (0 + sum_list (map Number_value (take k (map duration ds))))"
      by (simp add: take_map comp_def)
    from foldl_add_exact[OF f this]
    show "totalTime s = Finite (sum_list (map (\<lambda>d. Number_value (duration d)) ds))"
      unfolding t by (simp add: comp_def)
  qed
  have 5: "(\<exists>d\<in>set ds. duration d = NaN) \<longrightarrow> totalTime s = NaN"
  proof
    assume "\<exists>d\<in>set ds. duration d = NaN"
    then have "NaN \<in> set (map duration ds)" by force
    then show "totalTime s = NaN" unfolding t by (rule foldl_add_has_NaN)
  qed
  have 6: "ds \<noteq> [] \<and> (\<forall>d\<in>set ds. dive.maxDepth d \<noteq> NaN)
        \<longrightarrow> (\<exists>d\<in>set ds. dive_stats.maxDepth s = dive.maxDepth d) \<and>
            (\<forall>d\<in>set ds. \<not> Number_lessThan (dive_stats.maxDepth s) (dive.maxDepth d))"
  proof
    assume a: "ds \<noteq> [] \<and> (\<forall>d\<in>set ds. dive.maxDepth d \<noteq> NaN)"
    then have "map dive.maxDepth ds \<noteq> []" "NaN \<notin> set (map dive.maxDepth ds)" by auto
    from Math_max_is_maximum[OF this] m a
    show "(\<exists>d\<in>set ds. dive_stats.maxDepth s = dive.maxDepth d) \<and>
            (\<forall>d\<in>set ds. \<not> Number_lessThan (dive_stats.maxDepth s) (dive.maxDepth d))"
      by auto
  qed
  have 7: "(\<exists>d\<in>set ds. dive.maxDepth d = NaN) \<longrightarrow> dive_stats.maxDepth s = NaN"
  proof
    assume a: "\<exists>d\<in>set ds. dive.maxDepth d = NaN"
    then have n: "NaN \<in> set (map dive.maxDepth ds)" by force
    from a have "ds \<noteq> []" by auto
    from m[OF this] max_from_has_NaN[OF n] show "dive_stats.maxDepth s = NaN"
      by (simp add: Math_max_def)
  qed
  from 1 2 3 4 5 6 7 show ?thesis
    unfolding Let_def ds_def[symmetric] s_def[symmetric] by (intro conjI)
qed

theorem getDiveStats_totals_witness:
  "filter (\<lambda>d. userId d = ''u1'') sample_dives
     = [\<lparr>userId = ''u1'', duration = Finite 45, maxDepth = Finite 18\<rparr>,
        \<lparr>userId = ''u1'', duration = Finite 50, maxDepth = Finite 25.5\<rparr>] \<and>
   representable 0 \<and> representable 45 \<and> representable 95 \<and>
   totalDives (getDiveStats ''u1'' sample_dives) = 2 \<and>
   totalTime (getDiveStats ''u1'' sample_dives) = Finite 95 \<and>
   dive_stats.maxDepth (getDiveStats ''u1'' sample_dives) = Finite 25.5 \<and>
   getDiveStats ''u3'' sample_dives = \<lparr>totalDives = 0, maxDepth = Finite 0, totalTime = Finite 0\<rparr> \<and>
   totalTime (getDiveStats ''u1'' nan_dives) = NaN \<and>
   dive_stats.maxDepth (getDiveStats ''u1'' nan_dives) = NaN"
proof -
  define a :: dive where "a = \<lparr>userId = ''u1'', duration = Finite 45, maxDepth = Finite 18\<rparr>"
  define b :: dive where "b = \<lparr>userId = ''u1'', duration = Finite 50, maxDepth = Finite 25.5\<rparr>"
  define c :: dive where "c = \<lparr>userId = ''u1'', duration = NaN, maxDepth = NaN\<rparr>"
  have f: "filter (\<lambda>d. userId d = ''u1'') sample_dives = [a, b]"
    "filter (\<lambda>d. userId d = ''u3'') sample_dives = []"
    "filter (\<lambda>d. userId d = ''u1'') nan_dives = [a, c]"
    by (simp_all add: sample_dives_def nan_dives_def a_def b_def c_def)
  have r: "representable 0" "representable 45" "representable 95" by code_simp+
  note t = getDiveStats_totals[of "''u1''" sample_dives, unfolded Let_def f]
  note n = getDiveStats_totals[of "''u1''" nan_dives, unfolded Let_def f]
  note e = getDiveStats_totals[of "''u3''" sample_dives, unfolded Let_def f]
  have 1: "totalDives (getDiveStats ''u1'' sample_dives) = 2"
    using t[THEN conjunct1] by simp
  have w: "\<forall>d\<in>set [a, b]. \<exists>n::nat. duration d = Finite (real n)"
  proof -
    have "duration a = Finite (real 45)" "duration b = Finite (real 50)"
      by (simp_all add: a_def b_def)
    then show ?thesis by auto
  qed
  have s: "sum_list (map (\<lambda>d. Number_value (duration d)) [a, b]) = 95"
    by (simp add: a_def b_def)
  have 2: "totalTime (getDiveStats ''u1'' sample_dives) = Finite 95"
    using t[THEN conjunct2, THEN conjunct2, THEN conjunct1] w unfolding s by simp
  have p: "\<forall>k\<le>length [a, b]. representable (sum_list (map (\<lambda>d. Number_value (duration d)) (take k [a, b])))"
  proof (intro allI impI)
    fix k :: nat
    assume "k \<le> length [a, b]"
    then have "k = 0 \<or> k = Suc 0 \<or> k = Suc (Suc 0)" by auto
    then show "representable (sum_list (map (\<lambda>d. Number_value (duration d)) (take k [a, b])))"
      using r by (auto simp: a_def b_def)
  qed
  have "totalTime (getDiveStats ''u1'' sample_dives) = Finite 95"
    using t[THEN conjunct2, THEN conjunct2, THEN conjunct2, THEN conjunct1] p unfolding s
    by (simp add: a_def b_def)
  have m: "(\<exists>d\<in>set [a, b]. dive_stats.maxDepth (getDiveStats ''u1'' sample_dives) = dive.maxDepth d) \<and>
     (\<forall>d\<in>set [a, b]. \<not> Number_lessThan (dive_stats.maxDepth (getDiveStats ''u1'' sample_dives)) (dive.maxDepth d))"
    using t[THEN conjunct2, THEN conjunct2, THEN conjunct2, THEN conjunct2, THEN conjunct2, THEN conjunct1]
    by (simp add: a_def b_def)
  have 3: "dive_stats.maxDepth (getDiveStats ''u1'' sample_dives) = Finite 25.5"
    using m by (auto simp: a_def b_def)
  have 4: "getDiveStats ''u3'' sample_dives = \<lparr>totalDives = 0, maxDepth = Finite 0, totalTime = Finite 0\<rparr>"
    using e[THEN conjunct2, THEN conjunct1] by simp
  have 5: "totalTime (getDiveStats ''u1'' nan_dives) = NaN"
    using n[THEN conjunct2, THEN conjunct2, THEN conjunct2, THEN conjunct2, THEN conjunct1]
    by (simp add: c_def)
  have 6: "dive_stats.maxDepth (getDiveStats ''u1'' nan_dives) = NaN"
    using n[THEN conjunct2, THEN conjunct2, THEN conjunct2, THEN conjunct2, THEN conjunct2, THEN conjunct2]
    by (simp add: c_def)
  from f(1) r 1 2 3 4 5 6 show ?thesis unfolding a_def b_def by (intro conjI)
qed

text \<open>
  C10 as stated fails: for the durations \<open>2 ^ 53\<close> and 1 the total is \<open>2 ^ 53\<close>
  and not their sum, and for the depths 18 and \<open>NaN\<close> the maximum is \<open>NaN\<close>.
\<close>

theorem getDiveStats_rounded_sum_counterexample:
  "getDiveStats ''u1'' long_dives
     = \<lparr>totalDives = 2, maxDepth = Finite 25.5, totalTime = Finite 9007199254740992\<rparr> \<and>
   sum_list (map (\<lambda>d. Number_value (duration d)) long_dives) = 9007199254740993 \<and>
   getDiveStats ''u1'' nan_dives = \<lparr>totalDives = 2, maxDepth = NaN, totalTime = NaN\<rparr>"
  by code_simp

end
